theory Spec2Isabelle
  imports Main
begin

section \<open>Trackr: the commit log and the ledger of processed commits\<close>

text \<open>
  The development follows \<^verbatim>\<open>src/extension.ts\<close>. A JavaScript string is the list
  of its UTF-16 code units, each a natural number (below 65536, a bound that no
  definition depends on), so that every string is covered;
  \<open>js\<close> turns a literal of ASCII characters into the string of their codes. Strings
  that the code only passes on (the login, the sha, commit messages of the log file,
  error messages, folder names) stay literals. The base64 transport encoding of the
  GitHub contents API is left out, so file contents are the decoded text. Every awaited
  call of the extension is answered by the environment with a value of type
  \<open>error + 'a\<close>, \<open>Inl\<close> being a rejected promise (a thrown exception).
\<close>

type_synonym js_string = "nat list"

definition js :: "string \<Rightarrow> js_string" where
  "js s = map of_char s"

subsection \<open>Data\<close>

text \<open>The fields \<^verbatim>\<open>hash\<close>, \<^verbatim>\<open>message\<close>, \<^verbatim>\<open>date\<close> of \<^verbatim>\<open>log.latest\<close> (line 120).\<close>

record commit =
  hash :: js_string
  message :: js_string
  date :: js_string

text \<open>
  A thrown value: \<^verbatim>\<open>error.status\<close> (absent on errors that are no HTTP responses)
  and \<^verbatim>\<open>error.message\<close>.
\<close>

datatype error = Error (status: "nat option") (message_of: string)

text \<open>
  The \<^verbatim>\<open>data\<close> of a \<^verbatim>\<open>repos.getContent\<close> response: the tests
  \<^verbatim>\<open>'content' in existing\<close> and \<^verbatim>\<open>'sha' in existing\<close> are the two options.
\<close>

record data =
  content :: "js_string option"
  sha :: "string option"

subsection \<open>Parsing the log (lines 85 to 91)\<close>

text \<open>\<^verbatim>\<open>content.split('\n')\<close>: the pieces between the separators, \<^verbatim>\<open>['']\<close> on the empty string.\<close>

fun split :: "nat \<Rightarrow> js_string \<Rightarrow> js_string list" where
  "split sep [] = [[]]"
| "split sep (c # s) =
     (if c = sep then [] # split sep s
      else (case split sep s of [] \<Rightarrow> [[c]] | l # ls \<Rightarrow> (c # l) # ls))"

text \<open>
  What \<^verbatim>\<open>String.prototype.trim\<close> removes: the white space of ECMAScript (tab, vertical
  tab, form feed, space, no-break space, the byte order mark and the space separators
  of Unicode) and its four line terminators.
\<close>

definition white_space :: "nat \<Rightarrow> bool" where
  "white_space c \<longleftrightarrow>
     c \<in> set [0x09, 0x0B, 0x0C, 0x20, 0xA0, 0xFEFF, 0x1680, 0x202F, 0x205F, 0x3000]
     \<or> (0x2000 \<le> c \<and> c \<le> 0x200A)
     \<or> c \<in> set [0x0A, 0x0D, 0x2028, 0x2029]"

definition trim :: "js_string \<Rightarrow> js_string" where
  "trim s = rev (dropWhile white_space (rev (dropWhile white_space s)))"

text \<open>
  The regular expression's \<^verbatim>\<open>.\<close> matches every code unit but the four line
  terminators: line feed, carriage return, U+2028 and U+2029.
\<close>

definition dot :: "nat \<Rightarrow> bool" where
  "dot c \<longleftrightarrow> c \<notin> set [0x0A, 0x0D, 0x2028, 0x2029]"

text \<open>
  \<^verbatim>\<open>line.match(/\[(.*?)\] (.*?):/)\<close>, read from right to left. \<open>match_hash\<close> is
  \<^verbatim>\<open>(.*?):\<close>, the second group and the colon: the lazy star first tries the colon and
  only then takes one more character. \<open>match_stamp\<close> is \<^verbatim>\<open>(.*?)\] (.*?):\<close>, what follows
  the opening bracket: it first tries \<^verbatim>\<open>\] (.*?):\<close> at the current position and takes
  one more character when that fails. \<open>match_line\<close> tries the start positions from the
  left. Each returns the second group, \<^verbatim>\<open>match[2]\<close>, or \<open>None\<close> for \<^verbatim>\<open>null\<close>.
\<close>

fun match_hash :: "js_string \<Rightarrow> js_string option" where
  "match_hash [] = None"
| "match_hash (c # s) =
     (if c = of_char CHR '':'' then Some []
      else if dot c then map_option ((#) c) (match_hash s)
      else None)"

definition match_close :: "js_string \<Rightarrow> js_string option" where
  "match_close s =
     (case s of
        c # d # t \<Rightarrow> if c = of_char CHR '']'' \<and> d = of_char CHR '' '' then match_hash t else None
      | _ \<Rightarrow> None)"

fun match_stamp :: "js_string \<Rightarrow> js_string option" where
  "match_stamp [] = None"
| "match_stamp (c # s) =
     (case match_close (c # s) of
        Some h \<Rightarrow> Some h
      | None \<Rightarrow> if dot c then match_stamp s else None)"

fun match_line :: "js_string \<Rightarrow> js_string option" where
  "match_line [] = None"
| "match_line (c # s) =
     (case (if c = of_char CHR ''['' then match_stamp s else None) of
        Some h \<Rightarrow> Some h
      | None \<Rightarrow> match_line s)"

text \<open>
  Lines 85 to 91: split, drop the lines that trim to the empty string, match, drop the
  \<^verbatim>\<open>null\<close>s. A line that matches holds an opening bracket, so the first filter
  drops no line that the second would keep.
\<close>

definition parse_commits :: "js_string \<Rightarrow> js_string list" where
  "parse_commits text =
     List.map_filter match_line
       (filter (\<lambda>line. trim line \<noteq> []) (split 0x0A text))"

subsection \<open>The state the extension reads and writes\<close>

text \<open>
  The calls made through \<^verbatim>\<open>octokit\<close>, in the order they are issued. A
  \<^verbatim>\<open>createOrUpdateFileContents\<close> call is recorded with its commit message, the file
  content it sends and the \<^verbatim>\<open>sha\<close> it passes as precondition (\<open>None\<close> for
  \<^verbatim>\<open>undefined\<close>).
\<close>

datatype call =
    GetAuthenticated
  | GetContent
  | CreateOrUpdate string js_string "string option"

text \<open>The remote file \<^verbatim>\<open>git.trackr.log\<close> of the repository \<^verbatim>\<open>TrackrGitLog\<close>.\<close>

record remote_file =
  text_of :: js_string
  tag_of :: string

text \<open>
  \<open>processedCommits\<close> is the module's global set (line 10). \<open>remote\<close> is the remote
  file as the last confirmed write of this process left it (\<open>None\<close> before any), and
  \<open>mirror\<close> the file \<^verbatim>\<open>git.trackr.log\<close> in the home directory (\<open>None\<close> while it
  does not exist). \<open>workspaceState\<close> is the value stored under the key
  \<^verbatim>\<open>'processedCommits'\<close> of \<^verbatim>\<open>context.workspaceState\<close>; the order of
  \<^verbatim>\<open>Array.from\<close> is not kept. \<open>calls\<close> is the history of \<^verbatim>\<open>octokit\<close> calls.
\<close>

record world =
  processedCommits :: "js_string set"
  remote :: "remote_file option"
  mirror :: "js_string option"
  workspaceState :: "js_string set option"
  calls :: "call list"

text \<open>
  What the environment answers during one invocation of \<^verbatim>\<open>trackGitChange\<close>, one field
  for each call the function waits for: \<^verbatim>\<open>vscode.workspace.workspaceFolders\<close>
  (\<open>None\<close> for \<^verbatim>\<open>undefined\<close>), \<^verbatim>\<open>git.checkIsRepo()\<close>, the \<^verbatim>\<open>latest\<close> of
  \<^verbatim>\<open>git.log(['-1'])\<close>, \<^verbatim>\<open>octokit.users.getAuthenticated()\<close> (the login),
  \<^verbatim>\<open>octokit.repos.getContent\<close>, \<^verbatim>\<open>fs.writeFileSync\<close>,
  \<^verbatim>\<open>octokit.repos.createOrUpdateFileContents\<close> (the sha of the new file) and
  \<^verbatim>\<open>context.workspaceState.update\<close>.
\<close>

record attempt =
  workspaceFolders :: "string list option"
  checkIsRepo :: "error + bool"
  latest :: "error + commit option"
  getAuthenticated :: "error + string"
  getContent :: "error + data"
  writeFileSync :: "error + unit"
  createOrUpdateFileContents :: "error + string"
  workspaceStateUpdate :: "error + unit"

text \<open>
  The return points of \<^verbatim>\<open>trackGitChange\<close>, which all return \<^verbatim>\<open>undefined\<close>: lines 106,
  114, 118 and 124, the end of the inner \<^verbatim>\<open>try\<close> (after line 175, with the
  notification \<^verbatim>\<open>Tracked commit\<close>) and the outer \<^verbatim>\<open>catch\<close> (lines 184 to 188, with
  the notification \<^verbatim>\<open>Failed to track git change\<close>).
\<close>

datatype outcome =
    NoWorkspace
  | NotARepository
  | NoCommits
  | Skipped
  | Tracked
  | Failed error

subsection \<open>\<^verbatim>\<open>loadProcessedCommits\<close> (lines 74 to 100)\<close>

text \<open>\<^verbatim>\<open>commits.forEach(hash => processedCommits.add(hash!))\<close>, line 93.\<close>

definition add_all :: "js_string list \<Rightarrow> js_string set \<Rightarrow> js_string set" where
  "add_all hashes ledger = fold insert hashes ledger"

text \<open>
  The \<^verbatim>\<open>try\<close> block, lines 76 to 94, with the state it leaves behind also when an
  exception leaves it.
\<close>

definition loadProcessedCommits_try ::
  "(error + string) \<Rightarrow> (error + data) \<Rightarrow> world \<Rightarrow> (error + unit) \<times> world" where
  "loadProcessedCommits_try user_response content_response w =
     (let w1 = w\<lparr>calls := calls w @ [GetAuthenticated]\<rparr> in
      case user_response of
        Inl e \<Rightarrow> (Inl e, w1)
      | Inr user \<Rightarrow>
          let w2 = w1\<lparr>calls := calls w1 @ [GetContent]\<rparr> in
          (case content_response of
             Inl e \<Rightarrow> (Inl e, w2)
           | Inr existing \<Rightarrow>
               (case content existing of
                  Some text \<Rightarrow>
                    (Inr (), w2\<lparr>processedCommits :=
                                  add_all (parse_commits text) (processedCommits w2)\<rparr>)
                | None \<Rightarrow> (Inr (), w2))))"

text \<open>
  The function with its \<^verbatim>\<open>catch\<close> (lines 95 to 99), which logs the error unless its
  status is 404, and returns. \<open>Inl\<close> would be an exception leaving the function.
\<close>

definition loadProcessedCommits ::
  "(error + string) \<Rightarrow> (error + data) \<Rightarrow> world \<Rightarrow> (error + unit) \<times> world" where
  "loadProcessedCommits user_response content_response w =
     (case loadProcessedCommits_try user_response content_response w of
        (Inr u, w') \<Rightarrow> (Inr (), w')
      | (Inl e, w') \<Rightarrow> (Inr (), w'))"

subsection \<open>\<^verbatim>\<open>trackGitChange\<close> (lines 102 to 189)\<close>

text \<open>Line 127.\<close>

definition logEntry :: "commit \<Rightarrow> js_string" where
  "logEntry c =
     js ''['' @ date c @ js ''] '' @ hash c @ js '': '' @ message c @ js ''\<newline>''"

text \<open>
  Lines 135 to 155: the content and the sha the write starts from. A response without
  both fields, and a 404, give the empty content and no sha; any other error is thrown on.
\<close>

definition fetch :: "attempt \<Rightarrow> error + js_string \<times> string option" where
  "fetch a =
     (case getContent a of
        Inr existing \<Rightarrow>
          (case (content existing, sha existing) of
             (Some text, Some s) \<Rightarrow> Inr (text, Some s)
           | _ \<Rightarrow> Inr ([], None))
      | Inl e \<Rightarrow> if status e = Some 404 then Inr ([], None) else Inl e)"

text \<open>Line 166: \<^verbatim>\<open>sha ? 'Update git.trackr.log' : 'Create git.trackr.log'\<close>; the empty string is falsy.\<close>

definition commit_message :: "string option \<Rightarrow> string" where
  "commit_message s =
     (case s of
        None \<Rightarrow> ''Create git.trackr.log''
      | Some t \<Rightarrow> if t = [] then ''Create git.trackr.log'' else ''Update git.trackr.log'')"

text \<open>
  The inner \<^verbatim>\<open>try\<close> block, lines 132 to 175, with the state it leaves behind also when
  an exception leaves it. A failed \<^verbatim>\<open>writeFileSync\<close> is taken to leave the mirror as it
  was. A confirmed write leaves the remote file with the content sent.
\<close>

definition append_try :: "attempt \<Rightarrow> commit \<Rightarrow> world \<Rightarrow> (error + unit) \<times> world" where
  "append_try a c w =
     (let w1 = w\<lparr>calls := calls w @ [GetContent]\<rparr> in
      case fetch a of
        Inl e \<Rightarrow> (Inl e, w1)
      | Inr (old, s) \<Rightarrow>
          let new = old @ logEntry c in
          (case writeFileSync a of
             Inl e \<Rightarrow> (Inl e, w1)
           | Inr u \<Rightarrow>
               let w2 = w1\<lparr>mirror := Some new\<rparr>;
                   w3 = w2\<lparr>calls := calls w2 @ [CreateOrUpdate (commit_message s) new s]\<rparr> in
               (case createOrUpdateFileContents a of
                  Inl e \<Rightarrow> (Inl e, w3)
                | Inr new_sha \<Rightarrow>
                    let w4 = w3\<lparr>remote := Some \<lparr>text_of = new, tag_of = new_sha\<rparr>\<rparr>;
                        w5 = w4\<lparr>processedCommits := insert (hash c) (processedCommits w4)\<rparr> in
                    (case workspaceStateUpdate a of
                       Inl e \<Rightarrow> (Inl e, w5)
                     | Inr u \<Rightarrow> (Inr (), w5\<lparr>workspaceState := Some (processedCommits w5)\<rparr>)))))"

text \<open>
  One run of the function body: it returns, or it reaches the recursive call of line 179
  (\<open>Retry\<close>), which the \<^verbatim>\<open>catch\<close> of lines 176 to 183 makes on every exception of status
  409 that leaves the inner \<^verbatim>\<open>try\<close>.
\<close>

datatype step = Return outcome world | Retry world

definition trackGitChange_body :: "attempt \<Rightarrow> world \<Rightarrow> step" where
  "trackGitChange_body a w =
     (case workspaceFolders a of
        None \<Rightarrow> Return NoWorkspace w
      | Some [] \<Rightarrow> Return NoWorkspace w
      | Some (folder # folders) \<Rightarrow>
          (case checkIsRepo a of
             Inl e \<Rightarrow> Return (Failed e) w
           | Inr isRepo \<Rightarrow>
               if \<not> isRepo then Return NotARepository w
               else
                 (case latest a of
                    Inl e \<Rightarrow> Return (Failed e) w
                  | Inr None \<Rightarrow> Return NoCommits w
                  | Inr (Some c) \<Rightarrow>
                      if hash c \<in> processedCommits w then Return Skipped w
                      else
                        let w1 = w\<lparr>calls := calls w @ [GetAuthenticated]\<rparr> in
                        (case getAuthenticated a of
                           Inl e \<Rightarrow> Return (Failed e) w1
                         | Inr user \<Rightarrow>
                             (case append_try a c w1 of
                                (Inr u, w2) \<Rightarrow> Return Tracked w2
                              | (Inl e, w2) \<Rightarrow>
                                  if status e = Some 409 then Retry w2
                                  else Return (Failed e) w2)))))"

text \<open>
  The function. Its recursive call runs the whole body again, so the environment is a
  sequence of answers, one \<open>attempt\<close> for each run of the body, and \<open>i\<close> is the run the
  function is at. The recursion has no bound: a call that never returns has the value
  \<open>None\<close>. The recursive call never throws (its own outer \<^verbatim>\<open>catch\<close> takes every
  exception), so the caller returns what it returns.
\<close>

partial_function (option) trackGitChange ::
  "(nat \<Rightarrow> attempt) \<Rightarrow> nat \<Rightarrow> world \<Rightarrow> (outcome \<times> world) option" where
  "trackGitChange env i w =
     (case trackGitChange_body (env i) w of
        Return r w' \<Rightarrow> Some (r, w')
      | Retry w' \<Rightarrow> trackGitChange env (Suc i) w')"

subsection \<open>Vocabulary of the properties\<close>

text \<open>
  The commit source of an attempt delivers the commit \<open>c\<close>: the tests of lines 104 to 118
  pass and \<^verbatim>\<open>log.latest\<close> is \<open>c\<close>.
\<close>

definition observes :: "attempt \<Rightarrow> commit \<Rightarrow> bool" where
  "observes a c \<longleftrightarrow>
     (case workspaceFolders a of None \<Rightarrow> False | Some fs \<Rightarrow> fs \<noteq> [])
     \<and> checkIsRepo a = Inr True \<and> latest a = Inr (Some c)"

text \<open>
  An attempt that, run on a ledger without the hash of \<open>c\<close>, gets as far as issuing the
  remote write (line 162): the commit source delivers \<open>c\<close>, the user lookup succeeds, the
  fetch gives the content \<open>old\<close> and the sha \<open>s\<close>, and the mirror is written.
\<close>

definition reaches_write ::
  "attempt \<Rightarrow> commit \<Rightarrow> js_string \<Rightarrow> string option \<Rightarrow> bool" where
  "reaches_write a c old s \<longleftrightarrow>
     observes a c \<and> \<not> isl (getAuthenticated a) \<and> fetch a = Inr (old, s)
     \<and> \<not> isl (writeFileSync a)"


text \<open>
  An attempt that, run on the given ledger, issues the conditional write and has it
  answered with 409, whatever the fetch has delivered.
\<close>

definition conflicts :: "attempt \<Rightarrow> js_string set \<Rightarrow> bool" where
  "conflicts a ledger \<longleftrightarrow>
     (case latest a of Inr (Some c) \<Rightarrow> observes a c \<and> hash c \<notin> ledger | _ \<Rightarrow> False)
     \<and> \<not> isl (getAuthenticated a) \<and> \<not> isl (fetch a) \<and> \<not> isl (writeFileSync a)
     \<and> (case createOrUpdateFileContents a of
           Inl e \<Rightarrow> status e = Some 409
         | Inr new_sha \<Rightarrow> False)"

text \<open>The remote writes of a call history.\<close>

fun is_write :: "call \<Rightarrow> bool" where
  "is_write (CreateOrUpdate m t s) = True"
| "is_write c = False"

definition writes :: "call list \<Rightarrow> nat" where
  "writes cs = length (filter is_write cs)"

text \<open>
  The log format in the words of the specification: a line matches
  \<^verbatim>\<open>[<timestamp>] <hash>: <message>\<close> through the regular expression
  \<^verbatim>\<open>\[(.*?)\] (.*?):\<close> when it reads: anything, an opening bracket, a timestamp, a
  closing bracket and a space, a hash, a colon, anything; the timestamp and the hash
  hold no line terminator.
\<close>

definition log_line ::
  "js_string \<Rightarrow> js_string \<Rightarrow> js_string \<Rightarrow> js_string \<Rightarrow> js_string \<Rightarrow> bool" where
  "log_line line pre stamp h rest \<longleftrightarrow>
     line = pre @ js ''['' @ stamp @ js ''] '' @ h @ js '':'' @ rest
     \<and> list_all (\<lambda>c. c \<notin> set [0x0A, 0x0D, 0x2028, 0x2029]) (stamp @ h)"

text \<open>
  The state after \<open>n\<close> runs of the body from run \<open>i\<close> on that all end in the recursive
  call; \<open>None\<close> when one of them returns instead.
\<close>

fun retries :: "(nat \<Rightarrow> attempt) \<Rightarrow> nat \<Rightarrow> nat \<Rightarrow> world \<Rightarrow> world option" where
  "retries env i 0 w = Some w"
| "retries env i (Suc n) w =
     (case trackGitChange_body (env i) w of
        Retry w' \<Rightarrow> retries env (Suc i) n w'
      | Return r w' \<Rightarrow> None)"

text \<open>The state a run of the body ends in.\<close>

definition world_of :: "step \<Rightarrow> world" where
  "world_of st = (case st of Return r w \<Rightarrow> w | Retry w \<Rightarrow> w)"

text \<open>
  A call history in which every \<^verbatim>\<open>createOrUpdateFileContents\<close> directly follows a
  \<^verbatim>\<open>getContent\<close>.
\<close>

fun fetched_first :: "call list \<Rightarrow> bool" where
  "fetched_first [] = True"
| "fetched_first (CreateOrUpdate m t s # cs) = False"
| "fetched_first (GetContent # CreateOrUpdate m t s # cs) = fetched_first cs"
| "fetched_first (c # cs) = fetched_first cs"

subsection \<open>Scenarios\<close>

definition first_commit :: commit where
  "first_commit =
     \<lparr>hash = js ''deadbeef'', message = js ''Initial commit'',
      date = js ''2024-01-01T00:00:00Z''\<rparr>"

definition second_commit :: commit where
  "second_commit =
     \<lparr>hash = js ''cafe0001'', message = js ''Second commit'',
      date = js ''2024-01-02T00:00:00Z''\<rparr>"

definition fresh_world :: world where
  "fresh_world =
     \<lparr>processedCommits = {}, remote = None, mirror = None, workspaceState = None, calls = []\<rparr>"

text \<open>
  An attempt against an empty remote store in which nothing fails: the fetch is answered
  with 404 and the write is accepted.
\<close>

definition fresh_attempt :: "commit \<Rightarrow> attempt" where
  "fresh_attempt c =
     \<lparr>workspaceFolders = Some [''/work''], checkIsRepo = Inr True, latest = Inr (Some c),
      getAuthenticated = Inr ''octocat'',
      getContent = Inl (Error (Some 404) ''Not Found''),
      writeFileSync = Inr (),
      createOrUpdateFileContents = Inr ''sha1'',
      workspaceStateUpdate = Inr ()\<rparr>"

text \<open>The same attempt with the write answered by 409, and by 503.\<close>

definition conflicting_attempt :: "commit \<Rightarrow> attempt" where
  "conflicting_attempt c =
     (fresh_attempt c)\<lparr>createOrUpdateFileContents := Inl (Error (Some 409) ''Conflict'')\<rparr>"

definition failing_attempt :: "commit \<Rightarrow> attempt" where
  "failing_attempt c =
     (fresh_attempt c)\<lparr>createOrUpdateFileContents := Inl (Error (Some 503) ''Service Unavailable'')\<rparr>"

text \<open>
  An attempt against a remote file that another writer has created, in which nothing
  fails: the fetch gives that writer's content and sha, and the write is accepted.
\<close>

definition other_log :: js_string where
  "other_log = js ''[2024-01-01T12:00:00Z] 0123abcd: Elsewhere\<newline>''"

definition update_attempt :: "commit \<Rightarrow> attempt" where
  "update_attempt c =
     (fresh_attempt c)\<lparr>getContent := Inr \<lparr>content = Some other_log, sha = Some ''sha0''\<rparr>,
                       createOrUpdateFileContents := Inr ''sha2''\<rparr>"

text \<open>The same attempt with the write answered by 409.\<close>

definition contended_attempt :: "commit \<Rightarrow> attempt" where
  "contended_attempt c =
     (update_attempt c)\<lparr>createOrUpdateFileContents := Inl (Error (Some 409) ''Conflict'')\<rparr>"

text \<open>Environments: the same answers at every attempt; one attempt, then the same answers.\<close>

definition always :: "attempt \<Rightarrow> nat \<Rightarrow> attempt" where
  "always a i = a"

definition first_then :: "attempt \<Rightarrow> attempt \<Rightarrow> nat \<Rightarrow> attempt" where
  "first_then a b i = (if i = 0 then a else b)"


section \<open>Properties\<close>

subsection \<open>The regular expression\<close>

text \<open>
  A match of \<open>match_line\<close> decomposes the line as the regular expression reads it, and
  every line with such a decomposition has a match.
\<close>

lemma match_hash_sound:
  "match_hash s = Some h \<Longrightarrow> \<exists>rest. s = h @ of_char CHR '':'' # rest \<and> of_char CHR '':'' \<notin> set h \<and> list_all dot h"
proof (induction s arbitrary: h)
  case Nil
  then show ?case by simp
next
  case (Cons c s)
  show ?case
  proof (cases "c = of_char CHR '':''")
    case True
    with Cons.prems show ?thesis by simp
  next
    case False
    with Cons.prems obtain h' where h': "dot c" "match_hash s = Some h'" "h = c # h'"
      by (auto split: if_splits)
    from Cons.IH [OF h'(2)] obtain rest where "s = h' @ of_char CHR '':'' # rest" "of_char CHR '':'' \<notin> set h'" "list_all dot h'"
      by blast
    with False h' show ?thesis by simp
  qed
qed

lemma match_hash_complete:
  "list_all dot h \<Longrightarrow> match_hash (h @ of_char CHR '':'' # rest) \<noteq> None"
  by (induction h) simp_all


lemma match_close_sound:
  assumes "match_close s = Some h"
  shows "\<exists>rest. s = of_char CHR '']'' # of_char CHR '' '' # h @ of_char CHR '':'' # rest \<and> of_char CHR '':'' \<notin> set h \<and> list_all dot h"
proof -
  from assms obtain c d t where s: "s = c # d # t"
    by (cases s; cases "tl s") (simp_all add: match_close_def)
  with assms have cd: "c = of_char CHR '']''" "d = of_char CHR '' ''" and t: "match_hash t = Some h"
    by (simp_all add: match_close_def split: if_splits)
  from match_hash_sound [OF t] s cd show ?thesis by simp
qed

lemma match_close_complete:
  "list_all dot h \<Longrightarrow> match_close (of_char CHR '']'' # of_char CHR '' '' # h @ of_char CHR '':'' # rest) \<noteq> None"
  using match_hash_complete [of h rest] by (simp add: match_close_def)

lemma match_stamp_sound:
  "match_stamp s = Some h \<Longrightarrow>
     \<exists>ts rest. s = ts @ of_char CHR '']'' # of_char CHR '' '' # h @ of_char CHR '':'' # rest \<and> of_char CHR '':'' \<notin> set h
        \<and> list_all dot ts \<and> list_all dot h"
proof (induction s)
  case Nil
  then show ?case by simp
next
  case (Cons c s)
  show ?case
  proof (cases "match_close (c # s)")
    case (Some h')
    with Cons.prems have "h' = h" by simp
    with Some match_close_sound [of "c # s" h] obtain rest where
      "c # s = [] @ of_char CHR '']'' # of_char CHR '' '' # h @ of_char CHR '':'' # rest" "of_char CHR '':'' \<notin> set h" "list_all dot h"
      by auto
    moreover have "list_all dot []" by simp
    ultimately show ?thesis by blast
  next
    case None
    with Cons.prems have c: "dot c" and "match_stamp s = Some h"
      by (simp_all split: if_splits)
    from Cons.IH [OF this(2)] obtain ts rest where
      "s = ts @ of_char CHR '']'' # of_char CHR '' '' # h @ of_char CHR '':'' # rest" "of_char CHR '':'' \<notin> set h"
      "list_all dot ts" "list_all dot h" by blast
    with c have "c # s = (c # ts) @ of_char CHR '']'' # of_char CHR '' '' # h @ of_char CHR '':'' # rest"
      "list_all dot (c # ts)" by simp_all
    with \<open>of_char CHR '':'' \<notin> set h\<close> \<open>list_all dot h\<close> show ?thesis by blast
  qed
qed

lemma match_stamp_complete:
  "list_all dot ts \<Longrightarrow> list_all dot h \<Longrightarrow>
     match_stamp (ts @ of_char CHR '']'' # of_char CHR '' '' # h @ of_char CHR '':'' # rest) \<noteq> None"
proof (induction ts)
  case Nil
  from match_close_complete [OF Nil(2), of rest] obtain y where
    "match_close (of_char CHR '']'' # of_char CHR '' '' # h @ of_char CHR '':'' # rest) = Some y" by blast
  then have "match_stamp (of_char CHR '']'' # of_char CHR '' '' # h @ of_char CHR '':'' # rest) = Some y"
    by (simp only: match_stamp.simps option.case)
  then show ?case by simp
next
  case (Cons c ts)
  then have "match_stamp (ts @ of_char CHR '']'' # of_char CHR '' '' # h @ of_char CHR '':'' # rest) \<noteq> None"
    and "dot c" by simp_all
  then show ?case
    by (cases "match_close (c # ts @ of_char CHR '']'' # of_char CHR '' '' # h @ of_char CHR '':'' # rest)") simp_all
qed

lemma match_line_sound:
  "match_line l = Some h \<Longrightarrow>
     \<exists>pre ts rest. l = pre @ of_char CHR ''['' # ts @ of_char CHR '']'' # of_char CHR '' '' # h @ of_char CHR '':'' # rest
        \<and> of_char CHR '':'' \<notin> set h \<and> list_all dot ts \<and> list_all dot h"
proof (induction l)
  case Nil
  then show ?case by simp
next
  case (Cons c l)
  show ?case
  proof (cases "c = of_char CHR ''['' \<and> match_stamp l \<noteq> None")
    case True
    with Cons.prems have "match_stamp l = Some h" by auto
    from match_stamp_sound [OF this] obtain ts rest where
      "l = ts @ of_char CHR '']'' # of_char CHR '' '' # h @ of_char CHR '':'' # rest" "of_char CHR '':'' \<notin> set h"
      "list_all dot ts" "list_all dot h" by blast
    with True have "c # l = [] @ of_char CHR ''['' # ts @ of_char CHR '']'' # of_char CHR '' '' # h @ of_char CHR '':'' # rest"
      by simp
    with \<open>of_char CHR '':'' \<notin> set h\<close> \<open>list_all dot ts\<close> \<open>list_all dot h\<close> show ?thesis by blast
  next
    case False
    with Cons.prems have "match_line l = Some h" by (auto split: if_splits option.splits)
    from Cons.IH [OF this] obtain pre ts rest where
      "l = pre @ of_char CHR ''['' # ts @ of_char CHR '']'' # of_char CHR '' '' # h @ of_char CHR '':'' # rest" "of_char CHR '':'' \<notin> set h"
      "list_all dot ts" "list_all dot h" by blast
    then have "c # l = (c # pre) @ of_char CHR ''['' # ts @ of_char CHR '']'' # of_char CHR '' '' # h @ of_char CHR '':'' # rest"
      by simp
    with \<open>of_char CHR '':'' \<notin> set h\<close> \<open>list_all dot ts\<close> \<open>list_all dot h\<close> show ?thesis by blast
  qed
qed

lemma match_line_complete:
  "list_all dot ts \<Longrightarrow> list_all dot h \<Longrightarrow>
     match_line (pre @ of_char CHR ''['' # ts @ of_char CHR '']'' # of_char CHR '' '' # h @ of_char CHR '':'' # rest) \<noteq> None"
proof (induction pre)
  case Nil
  from match_stamp_complete [OF Nil, of rest] show ?case by auto
next
  case (Cons c pre)
  then show ?case by (simp split: option.splits)
qed

lemma match_hash_iff:
  "match_hash s = Some h \<longleftrightarrow>
     (\<exists>rest. s = h @ of_char CHR '':'' # rest \<and> of_char CHR '':'' \<notin> set h \<and> list_all dot h)"
proof
  assume "match_hash s = Some h"
  then show "\<exists>rest. s = h @ of_char CHR '':'' # rest \<and> of_char CHR '':'' \<notin> set h \<and> list_all dot h"
    by (rule match_hash_sound)
next
  assume "\<exists>rest. s = h @ of_char CHR '':'' # rest \<and> of_char CHR '':'' \<notin> set h \<and> list_all dot h"
  then obtain rest where s: "s = h @ of_char CHR '':'' # rest"
    and h: "of_char CHR '':'' \<notin> set h" "list_all dot h" by blast
  from h have "match_hash (h @ of_char CHR '':'' # rest) = Some h"
    by (induction h) auto
  with s show "match_hash s = Some h" by simp
qed

lemma match_stamp_least:
  "match_stamp s = Some h \<Longrightarrow>
     \<exists>ts rest. s = ts @ of_char CHR '']'' # of_char CHR '' '' # h @ of_char CHR '':'' # rest
        \<and> of_char CHR '':'' \<notin> set h \<and> list_all dot ts \<and> list_all dot h
        \<and> (\<forall>ts' h' rest'.
              s = ts' @ of_char CHR '']'' # of_char CHR '' '' # h' @ of_char CHR '':'' # rest'
              \<and> list_all dot ts' \<and> list_all dot h' \<longrightarrow> length ts \<le> length ts')"
proof (induction s)
  case Nil
  then show ?case by simp
next
  case (Cons c s)
  show ?case
  proof (cases "match_close (c # s)")
    case (Some h')
    with Cons.prems have "h' = h" by simp
    with Some match_close_sound [of "c # s" h] obtain rest where
      "c # s = [] @ of_char CHR '']'' # of_char CHR '' '' # h @ of_char CHR '':'' # rest"
      "of_char CHR '':'' \<notin> set h" "list_all dot h"
      by auto
    moreover have "list_all dot []" by simp
    moreover have "\<forall>ts' h' rest'.
              c # s = ts' @ of_char CHR '']'' # of_char CHR '' '' # h' @ of_char CHR '':'' # rest'
              \<and> list_all dot ts' \<and> list_all dot h' \<longrightarrow> length ([] :: nat list) \<le> length ts'"
      by simp
    ultimately show ?thesis by blast
  next
    case None
    with Cons.prems have c: "dot c" and "match_stamp s = Some h"
      by (simp_all split: if_splits)
    from Cons.IH [OF this(2)] obtain ts rest where
      ts: "s = ts @ of_char CHR '']'' # of_char CHR '' '' # h @ of_char CHR '':'' # rest"
      "of_char CHR '':'' \<notin> set h" "list_all dot ts" "list_all dot h"
      and least: "\<forall>ts' h' rest'.
              s = ts' @ of_char CHR '']'' # of_char CHR '' '' # h' @ of_char CHR '':'' # rest'
              \<and> list_all dot ts' \<and> list_all dot h' \<longrightarrow> length ts \<le> length ts'"
      by blast
    from ts c have 1: "c # s = (c # ts) @ of_char CHR '']'' # of_char CHR '' '' # h @ of_char CHR '':'' # rest"
      "list_all dot (c # ts)" by simp_all
    have 2: "length (c # ts) \<le> length ts'"
      if d: "c # s = ts' @ of_char CHR '']'' # of_char CHR '' '' # h' @ of_char CHR '':'' # rest'
              \<and> list_all dot ts' \<and> list_all dot h'" for ts' h' rest'
    proof (cases ts')
      case Nil
      with d have "c # s = of_char CHR '']'' # of_char CHR '' '' # h' @ of_char CHR '':'' # rest'"
        "list_all dot h'" by simp_all
      with match_close_complete [of h' rest'] None show ?thesis by simp
    next
      case (Cons c' ts'')
      with d have "s = ts'' @ of_char CHR '']'' # of_char CHR '' '' # h' @ of_char CHR '':'' # rest'
              \<and> list_all dot ts'' \<and> list_all dot h'" by simp
      with least have "length ts \<le> length ts''" by blast
      with Cons show ?thesis by simp
    qed
    from 1 ts(2,4) 2 show ?thesis by blast
  qed
qed

lemma match_line_least:
  "match_line l = Some h \<Longrightarrow>
     \<exists>pre ts rest.
        l = pre @ of_char CHR ''['' # ts @ of_char CHR '']'' # of_char CHR '' '' # h @ of_char CHR '':'' # rest
        \<and> of_char CHR '':'' \<notin> set h \<and> list_all dot ts \<and> list_all dot h
        \<and> (\<forall>pre' ts' h' rest'.
              l = pre' @ of_char CHR ''['' # ts' @ of_char CHR '']'' # of_char CHR '' '' # h' @ of_char CHR '':'' # rest'
              \<and> list_all dot ts' \<and> list_all dot h' \<longrightarrow>
              length pre < length pre' \<or> (pre' = pre \<and> length ts \<le> length ts'))"
proof (induction l)
  case Nil
  then show ?case by simp
next
  case (Cons c l)
  show ?case
  proof (cases "c = of_char CHR ''['' \<and> match_stamp l \<noteq> None")
    case True
    with Cons.prems have "match_stamp l = Some h" by auto
    from match_stamp_least [OF this] obtain ts rest where
      ts: "l = ts @ of_char CHR '']'' # of_char CHR '' '' # h @ of_char CHR '':'' # rest"
      "of_char CHR '':'' \<notin> set h" "list_all dot ts" "list_all dot h"
      and least: "\<forall>ts' h' rest'.
              l = ts' @ of_char CHR '']'' # of_char CHR '' '' # h' @ of_char CHR '':'' # rest'
              \<and> list_all dot ts' \<and> list_all dot h' \<longrightarrow> length ts \<le> length ts'"
      by blast
    from ts True have 1: "c # l = [] @ of_char CHR ''['' # ts @ of_char CHR '']'' # of_char CHR '' '' # h @ of_char CHR '':'' # rest"
      by simp
    have 2: "length ([] :: nat list) < length pre' \<or> (pre' = [] \<and> length ts \<le> length ts')"
      if d: "c # l = pre' @ of_char CHR ''['' # ts' @ of_char CHR '']'' # of_char CHR '' '' # h' @ of_char CHR '':'' # rest'
              \<and> list_all dot ts' \<and> list_all dot h'" for pre' ts' h' rest'
    proof (cases pre')
      case Nil
      with d have "l = ts' @ of_char CHR '']'' # of_char CHR '' '' # h' @ of_char CHR '':'' # rest'
              \<and> list_all dot ts' \<and> list_all dot h'" by simp
      with least have "length ts \<le> length ts'" by blast
      with Nil show ?thesis by simp
    next
      case (Cons a list)
      then show ?thesis by simp
    qed
    from 1 ts(2,3,4) 2 show ?thesis by blast
  next
    case False
    with Cons.prems have "match_line l = Some h" by (auto split: if_splits option.splits)
    from Cons.IH [OF this] obtain pre ts rest where
      ts: "l = pre @ of_char CHR ''['' # ts @ of_char CHR '']'' # of_char CHR '' '' # h @ of_char CHR '':'' # rest"
      "of_char CHR '':'' \<notin> set h" "list_all dot ts" "list_all dot h"
      and least: "\<forall>pre' ts' h' rest'.
              l = pre' @ of_char CHR ''['' # ts' @ of_char CHR '']'' # of_char CHR '' '' # h' @ of_char CHR '':'' # rest'
              \<and> list_all dot ts' \<and> list_all dot h' \<longrightarrow>
              length pre < length pre' \<or> (pre' = pre \<and> length ts \<le> length ts')"
      by blast
    from ts have 1: "c # l = (c # pre) @ of_char CHR ''['' # ts @ of_char CHR '']'' # of_char CHR '' '' # h @ of_char CHR '':'' # rest"
      by simp
    have 2: "length (c # pre) < length pre' \<or> (pre' = c # pre \<and> length ts \<le> length ts')"
      if d: "c # l = pre' @ of_char CHR ''['' # ts' @ of_char CHR '']'' # of_char CHR '' '' # h' @ of_char CHR '':'' # rest'
              \<and> list_all dot ts' \<and> list_all dot h'" for pre' ts' h' rest'
    proof (cases pre')
      case Nil
      with d have "c = of_char CHR ''[''"
        "l = ts' @ of_char CHR '']'' # of_char CHR '' '' # h' @ of_char CHR '':'' # rest'"
        "list_all dot ts'" "list_all dot h'" by simp_all
      with match_stamp_complete [of ts' h' rest'] False show ?thesis by simp
    next
      case (Cons c' pre'')
      with d have "c' = c" "l = pre'' @ of_char CHR ''['' # ts' @ of_char CHR '']'' # of_char CHR '' '' # h' @ of_char CHR '':'' # rest'
              \<and> list_all dot ts' \<and> list_all dot h'" by simp_all
      with least have "length pre < length pre'' \<or> (pre'' = pre \<and> length ts \<le> length ts')"
        by blast
      with Cons \<open>c' = c\<close> show ?thesis by auto
    qed
    from 1 ts(2,3,4) 2 show ?thesis by blast
  qed
qed

text \<open>
  The match is the one the regular expression takes: the leftmost opening bracket from
  which the rest matches, then the shortest timestamp, then the hash up to the next
  colon.
\<close>

lemma log_line_iff:
  "log_line line pre ts h rest \<longleftrightarrow>
     line = pre @ of_char CHR ''['' # ts @ of_char CHR '']'' # of_char CHR '' '' # h @ of_char CHR '':'' # rest
     \<and> list_all dot ts \<and> list_all dot h"
proof -
  have "dot = (\<lambda>c. c \<notin> set [0x0A, 0x0D, 0x2028, 0x2029])"
    by (rule ext) (simp add: dot_def)
  then show ?thesis by (simp add: log_line_def js_def)
qed

lemma first_occurrence:
  "x \<notin> set h \<Longrightarrow> x \<notin> set h2 \<Longrightarrow> h @ x # r = h2 @ x # r2 \<Longrightarrow> h = h2"
proof (induction h arbitrary: h2)
  case Nil
  then show ?case by (cases h2) auto
next
  case (Cons a h)
  then show ?case by (cases h2) auto
qed

lemma match_line_spec:
  "match_line line = Some h \<longleftrightarrow>
     (\<exists>pre ts rest. log_line line pre ts h rest \<and> of_char CHR '':'' \<notin> set h
        \<and> (\<forall>pre' ts' h' rest'. log_line line pre' ts' h' rest' \<longrightarrow>
              length pre < length pre' \<or> (pre' = pre \<and> length ts \<le> length ts')))"
proof
  assume "match_line line = Some h"
  from match_line_least [OF this] show "\<exists>pre ts rest. log_line line pre ts h rest
        \<and> of_char CHR '':'' \<notin> set h
        \<and> (\<forall>pre' ts' h' rest'. log_line line pre' ts' h' rest' \<longrightarrow>
              length pre < length pre' \<or> (pre' = pre \<and> length ts \<le> length ts'))"
    unfolding log_line_iff by blast
next
  assume "\<exists>pre ts rest. log_line line pre ts h rest \<and> of_char CHR '':'' \<notin> set h
        \<and> (\<forall>pre' ts' h' rest'. log_line line pre' ts' h' rest' \<longrightarrow>
              length pre < length pre' \<or> (pre' = pre \<and> length ts \<le> length ts'))"
  then obtain pre ts rest where d: "log_line line pre ts h rest"
    and h: "of_char CHR '':'' \<notin> set h"
    and least: "\<forall>pre' ts' h' rest'. log_line line pre' ts' h' rest' \<longrightarrow>
              length pre < length pre' \<or> (pre' = pre \<and> length ts \<le> length ts')"
    by blast
  from d have line: "line = pre @ of_char CHR ''['' # ts @ of_char CHR '']'' # of_char CHR '' '' # h @ of_char CHR '':'' # rest"
    and dots: "list_all dot ts" "list_all dot h"
    unfolding log_line_iff by simp_all
  from match_line_complete [OF dots, of pre rest] line obtain h2 where
    m: "match_line line = Some h2" by auto
  from match_line_least [OF m] obtain pre2 ts2 rest2 where
    d2: "log_line line pre2 ts2 h2 rest2" and h2: "of_char CHR '':'' \<notin> set h2"
    and least2: "\<forall>pre' ts' h' rest'. log_line line pre' ts' h' rest' \<longrightarrow>
              length pre2 < length pre' \<or> (pre' = pre2 \<and> length ts2 \<le> length ts')"
    unfolding log_line_iff by blast
  from least d2 have "length pre < length pre2 \<or> (pre2 = pre \<and> length ts \<le> length ts2)"
    by blast
  moreover from least2 d have "length pre2 < length pre \<or> (pre = pre2 \<and> length ts2 \<le> length ts)"
    by blast
  ultimately have pre: "pre2 = pre" and len: "length ts2 = length ts" by auto
  from d2 have "line = pre2 @ of_char CHR ''['' # ts2 @ of_char CHR '']'' # of_char CHR '' '' # h2 @ of_char CHR '':'' # rest2"
    unfolding log_line_iff by simp
  with line pre have "ts @ of_char CHR '']'' # of_char CHR '' '' # h @ of_char CHR '':'' # rest
      = ts2 @ of_char CHR '']'' # of_char CHR '' '' # h2 @ of_char CHR '':'' # rest2"
    by simp
  with len have "h @ of_char CHR '':'' # rest = h2 @ of_char CHR '':'' # rest2" by simp
  with h h2 have "h = h2"
    by (rule first_occurrence)
  with m show "match_line line = Some h" by simp
qed

lemma match_line_None_iff:
  "match_line line = None \<longleftrightarrow> \<not> (\<exists>pre ts h rest. log_line line pre ts h rest)"
proof
  assume none: "match_line line = None"
  show "\<not> (\<exists>pre ts h rest. log_line line pre ts h rest)"
  proof
    assume "\<exists>pre ts h rest. log_line line pre ts h rest"
    then obtain pre ts h rest where
      "line = pre @ of_char CHR ''['' # ts @ of_char CHR '']'' # of_char CHR '' '' # h @ of_char CHR '':'' # rest"
      "list_all dot ts" "list_all dot h" unfolding log_line_iff by blast
    with match_line_complete [of ts h pre rest] none show False by simp
  qed
next
  assume no: "\<not> (\<exists>pre ts h rest. log_line line pre ts h rest)"
  show "match_line line = None"
  proof (cases "match_line line")
    case None
    then show ?thesis .
  next
    case (Some h)
    from match_line_sound [OF this] no show ?thesis unfolding log_line_iff by blast
  qed
qed

lemma match_line_bracket: "match_line l = Some h \<Longrightarrow> of_char CHR ''['' \<in> set l"
  by (induction l) (auto split: if_splits option.splits)

lemma trim_Nil_iff: "trim s = [] \<longleftrightarrow> (\<forall>c \<in> set s. white_space c)"
proof
  assume "trim s = []"
  then have all: "\<forall>c \<in> set (dropWhile white_space s). white_space c"
    by (simp add: trim_def)
  have "dropWhile white_space s = []"
  proof (rule ccontr)
    assume ne: "dropWhile white_space s \<noteq> []"
    then have "\<not> white_space (hd (dropWhile white_space s))" by (rule hd_dropWhile)
    moreover from ne have "hd (dropWhile white_space s) \<in> set (dropWhile white_space s)" by simp
    ultimately show False using all by blast
  qed
  then show "\<forall>c \<in> set s. white_space c" by simp
next
  assume "\<forall>c \<in> set s. white_space c"
  then show "trim s = []" by (auto simp: trim_def dest: set_dropWhileD)
qed

lemma match_line_trim: "match_line l = Some h \<Longrightarrow> trim l \<noteq> []"
proof -
  assume "match_line l = Some h"
  then have "of_char CHR ''['' \<in> set l" by (rule match_line_bracket)
  moreover have "\<not> white_space (of_char CHR ''['')" by (simp add: white_space_def)
  ultimately show ?thesis unfolding trim_Nil_iff by blast
qed

lemma set_parse_commits:
  "set (parse_commits text) = {h. \<exists>line \<in> set (split 0x0A text). match_line line = Some h}"
proof -
  have "set (List.map_filter match_line (filter (\<lambda>line. trim line \<noteq> []) ls))
          = {h. \<exists>line \<in> set ls. match_line line = Some h}" for ls
  proof (induction ls)
    case Nil
    show ?case by (simp add: map_filter_simps)
  next
    case (Cons l ls)
    show ?case
    proof (cases "match_line l")
      case None
      with Cons show ?thesis by (simp add: map_filter_simps)
    next
      case (Some h)
      then have "trim l \<noteq> []" by (rule match_line_trim)
      with Some Cons show ?thesis by (auto simp: map_filter_simps)
    qed
  qed
  then show ?thesis by (simp add: parse_commits_def)
qed

text \<open>The lines of a text are the pieces between its line feeds, and nothing else is.\<close>

lemma split_no_sep: "l \<in> set (split sep s) \<Longrightarrow> sep \<notin> set l"
proof (induction s arbitrary: l)
  case Nil
  then show ?case by simp
next
  case (Cons c s)
  show ?case
  proof (cases "split sep s")
    case Nil
    with Cons show ?thesis by (auto split: if_splits)
  next
    case (Cons l0 ls)
    then have "l0 \<in> set (split sep s)" "set ls \<subseteq> set (split sep s)" by auto
    with Cons.IH have "sep \<notin> set l0" "\<forall>x \<in> set ls. sep \<notin> set x" by auto
    with Cons.prems Cons Cons.IH show ?thesis by (auto split: if_splits)
  qed
qed

lemma split_join: "concat (map (\<lambda>l. l @ [sep]) (split sep s)) = s @ [sep]"
  by (induction s) (auto split: list.splits)

lemma split_unique:
  "\<forall>l \<in> set ls. sep \<notin> set l \<Longrightarrow> concat (map (\<lambda>l. l @ [sep]) ls) = s @ [sep] \<Longrightarrow>
     split sep s = ls"
proof (induction s arbitrary: ls)
  case Nil
  then obtain l ls' where ls: "ls = l # ls'" by (cases ls) auto
  with Nil have "l @ sep # concat (map (\<lambda>l. l @ [sep]) ls') = [sep]" "sep \<notin> set l" by auto
  then have "l = []" "concat (map (\<lambda>l. l @ [sep]) ls') = []" by (cases l; auto)+
  then have "l = []" "ls' = []" by (cases ls'; auto)+
  with ls show ?case by simp
next
  case (Cons c s)
  then obtain l ls' where ls: "ls = l # ls'" by (cases ls) auto
  with Cons.prems have eq: "l @ sep # concat (map (\<lambda>l. l @ [sep]) ls') = c # s @ [sep]"
    and l: "sep \<notin> set l" and rest: "\<forall>l \<in> set ls'. sep \<notin> set l" by auto
  show ?case
  proof (cases "c = sep")
    case True
    with eq l have "l = []" by (cases l) auto
    with eq True have "concat (map (\<lambda>l. l @ [sep]) ls') = s @ [sep]" by auto
    from Cons.IH [OF rest this] True \<open>l = []\<close> ls show ?thesis by simp
  next
    case False
    with eq obtain l' where l': "l = c # l'" by (cases l) auto
    with eq l rest have "\<forall>x \<in> set (l' # ls'). sep \<notin> set x"
      "concat (map (\<lambda>l. l @ [sep]) (l' # ls')) = s @ [sep]" by auto
    from Cons.IH [OF this] False l' ls show ?thesis by simp
  qed
qed

lemma split_iff:
  "split sep s = ls \<longleftrightarrow>
     (\<forall>l \<in> set ls. sep \<notin> set l) \<and> concat (map (\<lambda>l. l @ [sep]) ls) = s @ [sep]"
  using split_no_sep [of _ sep s] split_join [of sep s] split_unique [of ls sep s] by blast

lemma add_all_eq: "add_all hashes ledger = ledger \<union> set hashes"
  unfolding add_all_def by (induction hashes arbitrary: ledger) auto

subsection \<open>One run of the body\<close>

lemmas body_defs = trackGitChange_body_def append_try_def Let_def
lemmas body_splits = option.splits list.splits sum.splits bool.splits prod.splits if_splits

lemma body_skip:
  "observes a c \<Longrightarrow> hash c \<in> processedCommits w \<Longrightarrow> trackGitChange_body a w = Return Skipped w"
  unfolding trackGitChange_body_def observes_def
  by (auto split: option.splits list.splits)

lemma body_write:
  assumes "reaches_write a c old s" "hash c \<notin> processedCommits w"
  shows "trackGitChange_body a w =
     (let new = old @ logEntry c;
          w3 = w\<lparr>calls := calls w @ [GetAuthenticated, GetContent, CreateOrUpdate (commit_message s) new s],
                 mirror := Some new\<rparr>
      in case createOrUpdateFileContents a of
           Inl e \<Rightarrow> if status e = Some 409 then Retry w3 else Return (Failed e) w3
         | Inr new_sha \<Rightarrow>
             let w5 = w3\<lparr>remote := Some \<lparr>text_of = new, tag_of = new_sha\<rparr>,
                         processedCommits := insert (hash c) (processedCommits w)\<rparr>
             in case workspaceStateUpdate a of
                  Inl e \<Rightarrow> if status e = Some 409 then Retry w5 else Return (Failed e) w5
                | Inr u \<Rightarrow> Return Tracked (w5\<lparr>workspaceState := Some (insert (hash c) (processedCommits w))\<rparr>))"
  using assms unfolding body_defs reaches_write_def observes_def
  by (auto split: body_splits simp: isl_def)

lemma body_ledger:
  "trackGitChange_body a w = st \<Longrightarrow>
     processedCommits (world_of st) = processedCommits w
   \<or> (\<exists>c old s. reaches_write a c old s \<and> hash c \<notin> processedCommits w
        \<and> \<not> isl (createOrUpdateFileContents a)
        \<and> processedCommits (world_of st) = insert (hash c) (processedCommits w)
        \<and> CreateOrUpdate (commit_message s) (old @ logEntry c) s \<in> set (calls (world_of st)))"
  unfolding body_defs reaches_write_def observes_def world_of_def
  by (auto split: body_splits simp: isl_def)

lemma body_tracked:
  assumes "trackGitChange_body a w = Return Tracked w'"
  shows "\<exists>c old s new_sha. reaches_write a c old s \<and> hash c \<notin> processedCommits w
      \<and> createOrUpdateFileContents a = Inr new_sha \<and> \<not> isl (workspaceStateUpdate a)
      \<and> w' = w\<lparr>calls := calls w @ [GetAuthenticated, GetContent,
                      CreateOrUpdate (commit_message s) (old @ logEntry c) s],
                 mirror := Some (old @ logEntry c),
                 remote := Some \<lparr>text_of = old @ logEntry c, tag_of = new_sha\<rparr>,
                 processedCommits := insert (hash c) (processedCommits w),
                 workspaceState := Some (insert (hash c) (processedCommits w))\<rparr>"
  using assms unfolding body_defs reaches_write_def observes_def
  by (auto split: body_splits simp: isl_def)

lemma body_mirror:
  "trackGitChange_body a w = st \<Longrightarrow>
     mirror (world_of st) = mirror w
   \<or> (\<exists>c old s. reaches_write a c old s \<and> hash c \<notin> processedCommits w
        \<and> mirror (world_of st) = Some (old @ logEntry c))"
  unfolding body_defs reaches_write_def observes_def world_of_def
  by (auto split: body_splits simp: isl_def)

lemma body_workspaceState:
  "trackGitChange_body a w = st \<Longrightarrow>
     workspaceState (world_of st) = workspaceState w
   \<or> (st = Return Tracked (world_of st)
        \<and> workspaceState (world_of st) = Some (processedCommits (world_of st)))"
  unfolding body_defs world_of_def
  by (auto split: body_splits)

lemma fetched_first_append:
  "fetched_first xs \<Longrightarrow> fetched_first ys \<Longrightarrow> fetched_first (xs @ ys)"
  by (induction xs rule: fetched_first.induct; cases ys rule: fetched_first.cases) simp_all

lemma body_fetched_first:
  "fetched_first (calls w) \<Longrightarrow> fetched_first (calls (world_of (trackGitChange_body a w)))"
proof -
  assume ff: "fetched_first (calls w)"
  have "\<exists>new. calls (world_of (trackGitChange_body a w)) = calls w @ new \<and> fetched_first new"
    unfolding body_defs world_of_def
    by (auto split: body_splits step.splits)
  with ff show ?thesis by (auto intro: fetched_first_append)
qed

subsection \<open>The runs of \<open>trackGitChange\<close>\<close>

text \<open>
  The function returns exactly when, after some number of runs of the body that end in
  the recursive call, a run of the body returns.
\<close>


lemma run_Return:
  "trackGitChange_body (env i) w = Return r w' \<Longrightarrow> trackGitChange env i w = Some (r, w')"
  by (subst trackGitChange.simps) simp

lemma run_Retry:
  "trackGitChange_body (env i) w = Retry w1 \<Longrightarrow> trackGitChange env i w = trackGitChange env (Suc i) w1"
  by (subst trackGitChange.simps) simp

lemma run_retries:
  "retries env i n w = Some w1 \<Longrightarrow> trackGitChange env i w = trackGitChange env (i + n) w1"
proof (induction n arbitrary: i w)
  case 0
  then show ?case by simp
next
  case (Suc n)
  then obtain w2 where body: "trackGitChange_body (env i) w = Retry w2"
    and rest: "retries env (Suc i) n w2 = Some w1"
    by (auto split: step.splits)
  from Suc.IH [OF rest] run_Retry [of env i w w2] body show ?case by simp
qed

lemma run_returns:
  assumes "trackGitChange env i w = Some y"
  shows "\<exists>n w1. retries env i n w = Some w1
           \<and> trackGitChange_body (env (i + n)) w1 = Return (fst y) (snd y)"
proof (rule trackGitChange.raw_induct
    [where P = "\<lambda>env i w y. \<exists>n w1. retries env i n w = Some w1
           \<and> trackGitChange_body (env (i + n)) w1 = Return (fst y) (snd y)", OF _ assms])
  fix f :: "(nat \<Rightarrow> attempt) \<Rightarrow> nat \<Rightarrow> world \<Rightarrow> (outcome \<times> world) option"
  fix env i w y
  assume IH: "\<And>env i w y. f env i w = Some y \<Longrightarrow>
      \<exists>n w1. retries env i n w = Some w1
           \<and> trackGitChange_body (env (i + n)) w1 = Return (fst y) (snd y)"
    and step: "(case trackGitChange_body (env i) w of Return r w' \<Rightarrow> Some (r, w')
                | Retry w' \<Rightarrow> f env (Suc i) w') = Some y"
  show "\<exists>n w1. retries env i n w = Some w1
           \<and> trackGitChange_body (env (i + n)) w1 = Return (fst y) (snd y)"
  proof (cases "trackGitChange_body (env i) w")
    case (Return r0 w0)
    with step have "retries env i 0 w = Some w"
      "trackGitChange_body (env (i + 0)) w = Return (fst y) (snd y)" by auto
    then show ?thesis by blast
  next
    case (Retry w2)
    with step have "f env (Suc i) w2 = Some y" by simp
    from IH [OF this] obtain n w1 where
      "retries env (Suc i) n w2 = Some w1"
      "trackGitChange_body (env (Suc i + n)) w1 = Return (fst y) (snd y)" by blast
    with Retry have "retries env i (Suc n) w = Some w1"
      "trackGitChange_body (env (i + Suc n)) w1 = Return (fst y) (snd y)" by simp_all
    then show ?thesis by blast
  qed
qed

lemma run_iff:
  "trackGitChange env i w = Some (r, w') \<longleftrightarrow>
     (\<exists>n w1. retries env i n w = Some w1 \<and> trackGitChange_body (env (i + n)) w1 = Return r w')"
proof
  assume "trackGitChange env i w = Some (r, w')"
  from run_returns [OF this] show "\<exists>n w1. retries env i n w = Some w1
      \<and> trackGitChange_body (env (i + n)) w1 = Return r w'" by simp
next
  assume "\<exists>n w1. retries env i n w = Some w1 \<and> trackGitChange_body (env (i + n)) w1 = Return r w'"
  then obtain n w1 where "retries env i n w = Some w1"
    "trackGitChange_body (env (i + n)) w1 = Return r w'" by blast
  with run_retries [of env i n w w1] run_Return [of env "i + n" w1 r w'] show
    "trackGitChange env i w = Some (r, w')" by simp
qed

lemma run_induct [consumes 1, case_names Return Retry]:
  assumes run: "trackGitChange env i w = Some (r, w')"
    and ret: "\<And>i w. trackGitChange_body (env i) w = Return r w' \<Longrightarrow> P i w"
    and retry: "\<And>i w w1. trackGitChange_body (env i) w = Retry w1 \<Longrightarrow>
                  trackGitChange env (Suc i) w1 = Some (r, w') \<Longrightarrow> P (Suc i) w1 \<Longrightarrow> P i w"
  shows "P i w"
proof -
  from run obtain n w1 where n: "retries env i n w = Some w1"
    "trackGitChange_body (env (i + n)) w1 = Return r w'"
    unfolding run_iff by blast
  then show ?thesis
  proof (induction n arbitrary: i w)
    case 0
    then show ?case by (auto intro: ret)
  next
    case (Suc n)
    then obtain w2 where body: "trackGitChange_body (env i) w = Retry w2"
      and rest: "retries env (Suc i) n w2 = Some w1"
      by (auto split: step.splits)
    from Suc.prems(2) have last: "trackGitChange_body (env (Suc i + n)) w1 = Return r w'" by simp
    from Suc.IH [OF rest last] have "P (Suc i) w2" .
    moreover from rest last have "trackGitChange env (Suc i) w2 = Some (r, w')"
      unfolding run_iff by blast
    ultimately show ?case using body by (rule_tac retry)
  qed
qed

lemma run_never:
  "(\<forall>n. retries env i n w \<noteq> None) \<Longrightarrow> trackGitChange env i w = None"
proof (rule ccontr)
  assume all: "\<forall>n. retries env i n w \<noteq> None" and "trackGitChange env i w \<noteq> None"
  then obtain r w' where "trackGitChange env i w = Some (r, w')" by auto
  then obtain n w1 where n: "retries env i n w = Some w1"
    "trackGitChange_body (env (i + n)) w1 = Return r w'"
    unfolding run_iff by blast
  have "retries env i n w = Some w1 \<Longrightarrow> trackGitChange_body (env (i + n)) w1 = Return r w'
          \<Longrightarrow> retries env i (Suc n) w = None" for i w
  proof (induction n arbitrary: i w)
    case 0
    then show ?case by simp
  next
    case (Suc n)
    then obtain w2 where body: "trackGitChange_body (env i) w = Retry w2"
      and rest: "retries env (Suc i) n w2 = Some w1"
      by (auto split: step.splits)
    from Suc.prems(2) have "trackGitChange_body (env (Suc i + n)) w1 = Return r w'" by simp
    from Suc.IH [OF rest this] body show ?case by simp
  qed
  from this [OF n] all show False by blast
qed

text \<open>What a returning call has done to the state.\<close>

lemma body_calls:
  "\<exists>new. calls (world_of (trackGitChange_body a w)) = calls w @ new"
  unfolding body_defs world_of_def
  by (auto split: body_splits step.splits)

lemma run_calls:
  assumes "trackGitChange env i w = Some (r, w')"
  shows "\<exists>new. calls w' = calls w @ new"
  using assms
proof (induction rule: run_induct)
  case (Return i w)
  with body_calls [of "env i" w] show ?case by (simp add: world_of_def)
next
  case (Retry i w w1)
  with body_calls [of "env i" w] show ?case by (auto simp: world_of_def)
qed

lemma run_ledger_mono:
  assumes "trackGitChange env i w = Some (r, w')"
  shows "processedCommits w \<subseteq> processedCommits w'"
  using assms
proof (induction rule: run_induct)
  case (Return i w)
  with body_ledger [of "env i" w "Return r w'"] show ?case by (auto simp: world_of_def)
next
  case (Retry i w w1)
  with body_ledger [of "env i" w "Retry w1"] show ?case by (auto simp: world_of_def)
qed

lemma run_ledger_confirmed:
  assumes "trackGitChange env i w = Some (r, w')"
  shows "\<forall>h. h \<in> processedCommits w' \<and> h \<notin> processedCommits w \<longrightarrow>
          (\<exists>j c old s. i \<le> j \<and> reaches_write (env j) c old s \<and> hash c = h
             \<and> \<not> isl (createOrUpdateFileContents (env j))
             \<and> CreateOrUpdate (commit_message s) (old @ logEntry c) s \<in> set (calls w'))"
  using assms
proof (induction rule: run_induct)
  case (Return i w)
  show ?case
  proof (intro allI impI)
    fix h assume h: "h \<in> processedCommits w' \<and> h \<notin> processedCommits w"
    with body_ledger [OF Return] obtain c old s where
      "reaches_write (env i) c old s" "hash c = h"
      "\<not> isl (createOrUpdateFileContents (env i))"
      "CreateOrUpdate (commit_message s) (old @ logEntry c) s \<in> set (calls w')"
      by (auto simp: world_of_def)
    moreover have "i \<le> i" by simp
    ultimately show "\<exists>j c old s. i \<le> j \<and> reaches_write (env j) c old s \<and> hash c = h
             \<and> \<not> isl (createOrUpdateFileContents (env j))
             \<and> CreateOrUpdate (commit_message s) (old @ logEntry c) s \<in> set (calls w')"
      by blast
  qed
next
  case (Retry i w w1)
  show ?case
  proof (intro allI impI)
    fix h assume h: "h \<in> processedCommits w' \<and> h \<notin> processedCommits w"
    show "\<exists>j c old s. i \<le> j \<and> reaches_write (env j) c old s \<and> hash c = h
             \<and> \<not> isl (createOrUpdateFileContents (env j))
             \<and> CreateOrUpdate (commit_message s) (old @ logEntry c) s \<in> set (calls w')"
    proof (cases "h \<in> processedCommits w1")
      case False
      with h Retry.IH obtain j c old s where "Suc i \<le> j" "reaches_write (env j) c old s"
        "hash c = h" "\<not> isl (createOrUpdateFileContents (env j))"
        "CreateOrUpdate (commit_message s) (old @ logEntry c) s \<in> set (calls w')" by blast
      moreover then have "i \<le> j" by simp
      ultimately show ?thesis by blast
    next
      case True
      with h body_ledger [OF Retry.hyps(1)] obtain c old s where
        c: "reaches_write (env i) c old s" "hash c = h"
           "\<not> isl (createOrUpdateFileContents (env i))"
           "CreateOrUpdate (commit_message s) (old @ logEntry c) s \<in> set (calls w1)"
        by (auto simp: world_of_def)
      from run_calls [OF Retry.hyps(2)] c(4)
      have "CreateOrUpdate (commit_message s) (old @ logEntry c) s \<in> set (calls w')" by auto
      with c show ?thesis by blast
    qed
  qed
qed

lemma run_tracked:
  assumes "trackGitChange env i w = Some (Tracked, w')"
  shows "\<exists>j c old s new_sha pre. i \<le> j \<and> reaches_write (env j) c old s
      \<and> createOrUpdateFileContents (env j) = Inr new_sha
      \<and> remote w' = Some \<lparr>text_of = old @ logEntry c, tag_of = new_sha\<rparr>
      \<and> mirror w' = Some (old @ logEntry c)
      \<and> hash c \<in> processedCommits w'
      \<and> workspaceState w' = Some (processedCommits w')
      \<and> calls w' = pre @ [GetAuthenticated, GetContent,
                           CreateOrUpdate (commit_message s) (old @ logEntry c) s]"
  using assms
proof (induction rule: run_induct)
  case (Return i w)
  from body_tracked [OF Return] obtain c old s new_sha where
    "reaches_write (env i) c old s" "createOrUpdateFileContents (env i) = Inr new_sha"
    "w' = w\<lparr>calls := calls w @ [GetAuthenticated, GetContent,
                      CreateOrUpdate (commit_message s) (old @ logEntry c) s],
                 mirror := Some (old @ logEntry c),
                 remote := Some \<lparr>text_of = old @ logEntry c, tag_of = new_sha\<rparr>,
                 processedCommits := insert (hash c) (processedCommits w),
                 workspaceState := Some (insert (hash c) (processedCommits w))\<rparr>"
    by blast
  then have "i \<le> i \<and> reaches_write (env i) c old s
      \<and> createOrUpdateFileContents (env i) = Inr new_sha
      \<and> remote w' = Some \<lparr>text_of = old @ logEntry c, tag_of = new_sha\<rparr>
      \<and> mirror w' = Some (old @ logEntry c)
      \<and> hash c \<in> processedCommits w'
      \<and> workspaceState w' = Some (processedCommits w')
      \<and> calls w' = calls w @ [GetAuthenticated, GetContent,
                           CreateOrUpdate (commit_message s) (old @ logEntry c) s]"
    by simp
  then show ?case by blast
next
  case (Retry i w w1)
  then obtain j c old s new_sha pre where "Suc i \<le> j" and rest: "reaches_write (env j) c old s
      \<and> createOrUpdateFileContents (env j) = Inr new_sha
      \<and> remote w' = Some \<lparr>text_of = old @ logEntry c, tag_of = new_sha\<rparr>
      \<and> mirror w' = Some (old @ logEntry c)
      \<and> hash c \<in> processedCommits w'
      \<and> workspaceState w' = Some (processedCommits w')
      \<and> calls w' = pre @ [GetAuthenticated, GetContent,
                           CreateOrUpdate (commit_message s) (old @ logEntry c) s]"
    by blast
  then have "i \<le> j" by simp
  with rest show ?case by blast
qed

lemma run_fetched_first:
  assumes "trackGitChange env i w = Some (r, w')"
  shows "fetched_first (calls w) \<longrightarrow> fetched_first (calls w')"
  using assms
proof (induction rule: run_induct)
  case (Return i w)
  with body_fetched_first [of w "env i"] show ?case by (simp add: world_of_def)
next
  case (Retry i w w1)
  with body_fetched_first [of w "env i"] show ?case by (simp add: world_of_def)
qed

lemma run_mirror:
  assumes "trackGitChange env i w = Some (r, w')"
  shows "mirror w' \<noteq> mirror w \<longrightarrow> (\<exists>j c old s. i \<le> j \<and> reaches_write (env j) c old s)"
  using assms
proof (induction rule: run_induct)
  case (Return i w)
  from body_mirror [OF Return] show ?case by (auto simp: world_of_def)
next
  case (Retry i w w1)
  show ?case
  proof (cases "mirror w1 = mirror w")
    case True
    with Retry.IH show ?thesis by (metis Suc_leD)
  next
    case False
    with body_mirror [OF Retry.hyps(1)] show ?thesis by (auto simp: world_of_def)
  qed
qed

lemma run_workspaceState:
  assumes "trackGitChange env i w = Some (r, w')"
  shows "workspaceState w' = workspaceState w
           \<or> (r = Tracked \<and> workspaceState w' = Some (processedCommits w'))"
  using assms
proof (induction rule: run_induct)
  case (Return i w)
  from body_workspaceState [OF Return] show ?case by (auto simp: world_of_def)
next
  case (Retry i w w1)
  from body_workspaceState [OF Retry.hyps(1)] have "workspaceState w1 = workspaceState w"
    by (simp add: world_of_def)
  with Retry.IH show ?case by simp
qed

text \<open>
  A run of the body ends in the recursive call exactly when an error of status 409
  leaves the inner \<^verbatim>\<open>try\<close>; every conditional write answered with 409 is followed by
  another attempt, however many came before.
\<close>

lemma body_conflict:
  assumes "conflicts a (processedCommits w)"
  shows "\<exists>w1. trackGitChange_body a w = Retry w1 \<and> processedCommits w1 = processedCommits w
           \<and> remote w1 = remote w \<and> writes (calls w1) = Suc (writes (calls w))"
proof -
  from assms obtain c e where c: "observes a c" "hash c \<notin> processedCommits w"
    and ok: "\<not> isl (getAuthenticated a)" "\<not> isl (fetch a)" "\<not> isl (writeFileSync a)"
    and e: "createOrUpdateFileContents a = Inl e" "status e = Some 409"
    unfolding conflicts_def
    by (auto split: sum.splits option.splits)
  from ok(2) obtain old s where "fetch a = Inr (old, s)"
    by (cases "fetch a") auto
  with c ok have rw: "reaches_write a c old s" by (simp add: reaches_write_def)
  note h = c(2)
  from body_write [OF rw h] e show ?thesis
    by (simp add: Let_def writes_def)
qed

lemma retries_conflicts:
  "(\<forall>k<n. conflicts (env (i + k)) (processedCommits w)) \<Longrightarrow>
     \<exists>w1. retries env i n w = Some w1 \<and> processedCommits w1 = processedCommits w
        \<and> remote w1 = remote w \<and> writes (calls w1) = writes (calls w) + n"
proof (induction n arbitrary: i w)
  case 0
  then show ?case by simp
next
  case (Suc n)
  from Suc.prems have "conflicts (env (i + 0)) (processedCommits w)" by blast
  then have "conflicts (env i) (processedCommits w)" by simp
  from body_conflict [OF this] obtain w1 where
    w1: "trackGitChange_body (env i) w = Retry w1" "processedCommits w1 = processedCommits w"
    "remote w1 = remote w" "writes (calls w1) = Suc (writes (calls w))" by blast
  have "\<forall>k<n. conflicts (env (Suc i + k)) (processedCommits w1)"
  proof (intro allI impI)
    fix k assume "k < n"
    then have "Suc k < Suc n" by simp
    with Suc.prems have "conflicts (env (i + Suc k)) (processedCommits w)" by blast
    with w1 show "conflicts (env (Suc i + k)) (processedCommits w1)" by simp
  qed
  from Suc.IH [OF this] obtain w2 where
    "retries env (Suc i) n w1 = Some w2" "processedCommits w2 = processedCommits w1"
    "remote w2 = remote w1" "writes (calls w2) = writes (calls w1) + n" by blast
  with w1 show ?case by simp
qed

lemma conflicts_never:
  assumes "\<forall>k. conflicts (env (i + k)) (processedCommits w)"
  shows "trackGitChange env i w = None"
proof (rule run_never, rule allI)
  fix n
  from assms have "\<forall>k<n. conflicts (env (i + k)) (processedCommits w)" by blast
  from retries_conflicts [OF this] show "retries env i n w \<noteq> None" by auto
qed

lemma body_Retry_iff:
  "trackGitChange_body a w = Retry w1 \<longleftrightarrow>
     (\<exists>c e. observes a c \<and> hash c \<notin> processedCommits w \<and> \<not> isl (getAuthenticated a)
        \<and> append_try a c (w\<lparr>calls := calls w @ [GetAuthenticated]\<rparr>) = (Inl e, w1)
        \<and> status e = Some 409)"
  unfolding trackGitChange_body_def observes_def Let_def
  by (auto split: body_splits simp: isl_def)




text \<open>The stored copy of the ledger is carried along and never read.\<close>

lemma body_frame_workspaceState:
  "trackGitChange_body a (w\<lparr>workspaceState := x\<rparr>) =
     (case trackGitChange_body a w of
        Return r w1 \<Rightarrow> Return r (if r = Tracked then w1 else w1\<lparr>workspaceState := x\<rparr>)
      | Retry w1 \<Rightarrow> Retry (w1\<lparr>workspaceState := x\<rparr>))"
  unfolding body_defs
  by (auto split: body_splits)

lemma load_frame_workspaceState:
  "loadProcessedCommits u c (w\<lparr>workspaceState := x\<rparr>) =
     (Inr (), (snd (loadProcessedCommits u c w))\<lparr>workspaceState := x\<rparr>)"
  by (auto simp: loadProcessedCommits_def loadProcessedCommits_try_def Let_def
      split: sum.splits option.splits prod.splits)

lemma load_ledger_mono:
  "processedCommits w \<subseteq> processedCommits (snd (loadProcessedCommits u c w))"
  by (auto simp: loadProcessedCommits_def loadProcessedCommits_try_def add_all_eq Let_def
      split: sum.splits option.splits prod.splits)


section \<open>The claims\<close>

text \<open>
  Claim C1 as stated does not hold: the retry does not keep the commit whose write
  conflicted. The write for \<^verbatim>\<open>deadbeef\<close> is answered with 409; the retry reads the latest
  commit again, which by then is \<^verbatim>\<open>cafe0001\<close>, and appends the entry of that commit;
  the entry of \<^verbatim>\<open>deadbeef\<close> is not written and its hash is not in the ledger.
\<close>

theorem retry_reads_commit_again:
  "trackGitChange (first_then (conflicting_attempt first_commit) (update_attempt second_commit)) 0
      fresh_world =
     Some (Tracked,
       \<lparr>processedCommits = {js ''cafe0001''},
        remote = Some \<lparr>text_of = js ''[2024-01-01T12:00:00Z] 0123abcd: Elsewhere\<newline>[2024-01-02T00:00:00Z] cafe0001: Second commit\<newline>'',
                       tag_of = ''sha2''\<rparr>,
        mirror = Some (js ''[2024-01-01T12:00:00Z] 0123abcd: Elsewhere\<newline>[2024-01-02T00:00:00Z] cafe0001: Second commit\<newline>''),
        workspaceState = Some {js ''cafe0001''},
        calls = [GetAuthenticated, GetContent,
                 CreateOrUpdate ''Create git.trackr.log''
                   (js ''[2024-01-01T00:00:00Z] deadbeef: Initial commit\<newline>'') None,
                 GetAuthenticated, GetContent,
                 CreateOrUpdate ''Update git.trackr.log''
                   (js ''[2024-01-01T12:00:00Z] 0123abcd: Elsewhere\<newline>[2024-01-02T00:00:00Z] cafe0001: Second commit\<newline>'')
                   (Some ''sha0'')]\<rparr>)"
proof -
  let ?env = "first_then (conflicting_attempt first_commit) (update_attempt second_commit)"
  let ?w1 = "fresh_world\<lparr>calls := [GetAuthenticated, GetContent,
               CreateOrUpdate ''Create git.trackr.log''
                 (js ''[2024-01-01T00:00:00Z] deadbeef: Initial commit\<newline>'') None],
             mirror := Some (js ''[2024-01-01T00:00:00Z] deadbeef: Initial commit\<newline>'')\<rparr>"
  have "trackGitChange_body (?env 0) fresh_world = Retry ?w1"
    by (simp add: body_defs first_then_def conflicting_attempt_def fresh_attempt_def fetch_def
        commit_message_def fresh_world_def first_commit_def js_def logEntry_def)
  then have "trackGitChange ?env 0 fresh_world = trackGitChange ?env (Suc 0) ?w1"
    by (rule run_Retry)
  moreover have "trackGitChange_body (?env (Suc 0)) ?w1 = Return Tracked
       \<lparr>processedCommits = {js ''cafe0001''},
        remote = Some \<lparr>text_of = js ''[2024-01-01T12:00:00Z] 0123abcd: Elsewhere\<newline>[2024-01-02T00:00:00Z] cafe0001: Second commit\<newline>'',
                       tag_of = ''sha2''\<rparr>,
        mirror = Some (js ''[2024-01-01T12:00:00Z] 0123abcd: Elsewhere\<newline>[2024-01-02T00:00:00Z] cafe0001: Second commit\<newline>''),
        workspaceState = Some {js ''cafe0001''},
        calls = [GetAuthenticated, GetContent,
                 CreateOrUpdate ''Create git.trackr.log''
                   (js ''[2024-01-01T00:00:00Z] deadbeef: Initial commit\<newline>'') None,
                 GetAuthenticated, GetContent,
                 CreateOrUpdate ''Update git.trackr.log''
                   (js ''[2024-01-01T12:00:00Z] 0123abcd: Elsewhere\<newline>[2024-01-02T00:00:00Z] cafe0001: Second commit\<newline>'')
                   (Some ''sha0'')]\<rparr>"
    by (simp add: body_defs first_then_def update_attempt_def fresh_attempt_def fetch_def
        commit_message_def fresh_world_def second_commit_def js_def logEntry_def other_log_def)
  ultimately show ?thesis by (simp add: run_Return)
qed

text \<open>
  Claim C1, as amended. On a 409 from the conditional write, \<^verbatim>\<open>trackGitChange\<close> is run
  again from its beginning, with the ledger and the remote file as they were: the retry
  reads the latest commit again, checks the ledger again and fetches content and sha
  again before it writes. A call that ends as tracked has, in its last attempt, written
  the content fetched in that attempt followed by the entry of the commit read in that
  attempt, with the sha fetched in that attempt, directly after the fetch; when the
  commit source delivers the same commit at every attempt, that entry is the entry of
  the commit whose write conflicted. In the call history every write directly follows
  a fetch.
\<close>

theorem retry_runs_whole_function:
  "(reaches_write (env i) c old s \<and> hash c \<notin> processedCommits w
      \<and> createOrUpdateFileContents (env i) = Inl e \<and> status e = Some 409 \<longrightarrow>
      trackGitChange env i w =
        trackGitChange env (Suc i)
          (w\<lparr>calls := calls w @ [GetAuthenticated, GetContent,
                        CreateOrUpdate (commit_message s) (old @ logEntry c) s],
            mirror := Some (old @ logEntry c)\<rparr>))
   \<and> (trackGitChange env i w = Some (Tracked, w') \<longrightarrow>
        (\<exists>j c old s new_sha pre. i \<le> j \<and> reaches_write (env j) c old s
           \<and> createOrUpdateFileContents (env j) = Inr new_sha
           \<and> remote w' = Some \<lparr>text_of = old @ logEntry c, tag_of = new_sha\<rparr>
           \<and> hash c \<in> processedCommits w'
           \<and> calls w' = pre @ [GetAuthenticated, GetContent,
                                CreateOrUpdate (commit_message s) (old @ logEntry c) s]))
   \<and> (trackGitChange env i w = Some (Tracked, w') \<and> (\<forall>j\<ge>i. latest (env j) = Inr (Some c0)) \<longrightarrow>
        (\<exists>old new_sha. remote w' = Some \<lparr>text_of = old @ logEntry c0, tag_of = new_sha\<rparr>
           \<and> hash c0 \<in> processedCommits w'))
   \<and> (trackGitChange env i w = Some (r, w') \<and> fetched_first (calls w) \<longrightarrow>
        fetched_first (calls w'))"
proof (intro conjI impI)
  assume a: "reaches_write (env i) c old s \<and> hash c \<notin> processedCommits w
      \<and> createOrUpdateFileContents (env i) = Inl e \<and> status e = Some 409"
  then have "trackGitChange_body (env i) w =
      Retry (w\<lparr>calls := calls w @ [GetAuthenticated, GetContent,
                        CreateOrUpdate (commit_message s) (old @ logEntry c) s],
            mirror := Some (old @ logEntry c)\<rparr>)"
    using body_write [of "env i" c old s w] by (simp add: Let_def)
  then show "trackGitChange env i w =
        trackGitChange env (Suc i)
          (w\<lparr>calls := calls w @ [GetAuthenticated, GetContent,
                        CreateOrUpdate (commit_message s) (old @ logEntry c) s],
            mirror := Some (old @ logEntry c)\<rparr>)"
    by (rule run_Retry)
next
  assume "trackGitChange env i w = Some (Tracked, w')"
  from run_tracked [OF this]
  show "\<exists>j c old s new_sha pre. i \<le> j \<and> reaches_write (env j) c old s
           \<and> createOrUpdateFileContents (env j) = Inr new_sha
           \<and> remote w' = Some \<lparr>text_of = old @ logEntry c, tag_of = new_sha\<rparr>
           \<and> hash c \<in> processedCommits w'
           \<and> calls w' = pre @ [GetAuthenticated, GetContent,
                                CreateOrUpdate (commit_message s) (old @ logEntry c) s]"
    by blast
next
  assume a: "trackGitChange env i w = Some (Tracked, w')
      \<and> (\<forall>j\<ge>i. latest (env j) = Inr (Some c0))"
  with run_tracked [of env i w w'] obtain j c old new_sha where j: "i \<le> j"
    "observes (env j) c" "remote w' = Some \<lparr>text_of = old @ logEntry c, tag_of = new_sha\<rparr>"
    "hash c \<in> processedCommits w'"
    unfolding reaches_write_def by blast
  with a have "c = c0" by (simp add: observes_def)
  with j show "\<exists>old new_sha. remote w' = Some \<lparr>text_of = old @ logEntry c0, tag_of = new_sha\<rparr>
           \<and> hash c0 \<in> processedCommits w'"
    by blast
next
  assume "trackGitChange env i w = Some (r, w') \<and> fetched_first (calls w)"
  with run_fetched_first [of env i w r w'] show "fetched_first (calls w')" by blast
qed

theorem retry_runs_whole_function_witness:
  "reaches_write (first_then (conflicting_attempt first_commit) (update_attempt first_commit) 0)
      first_commit [] None
   \<and> hash first_commit \<notin> processedCommits fresh_world
   \<and> status (Error (Some 409) ''Conflict'') = Some 409
   \<and> fetched_first (calls fresh_world)
   \<and> trackGitChange (first_then (conflicting_attempt first_commit) (update_attempt first_commit)) 0
        fresh_world =
       Some (Tracked,
         \<lparr>processedCommits = {js ''deadbeef''},
          remote = Some \<lparr>text_of = other_log @ logEntry first_commit, tag_of = ''sha2''\<rparr>,
          mirror = Some (other_log @ logEntry first_commit),
          workspaceState = Some {js ''deadbeef''},
          calls = [GetAuthenticated, GetContent,
                   CreateOrUpdate ''Create git.trackr.log'' (logEntry first_commit) None,
                   GetAuthenticated, GetContent,
                   CreateOrUpdate ''Update git.trackr.log''
                     (other_log @ logEntry first_commit) (Some ''sha0'')]\<rparr>)
   \<and> fetched_first [GetAuthenticated, GetContent,
                   CreateOrUpdate ''Create git.trackr.log'' (logEntry first_commit) None,
                   GetAuthenticated, GetContent,
                   CreateOrUpdate ''Update git.trackr.log''
                     (other_log @ logEntry first_commit) (Some ''sha0'')]"
proof -
  let ?env = "first_then (conflicting_attempt first_commit) (update_attempt first_commit)"
  let ?e = "Error (Some 409) ''Conflict''"
  let ?w1 = "fresh_world\<lparr>calls := calls fresh_world @ [GetAuthenticated, GetContent,
                        CreateOrUpdate (commit_message None) ([] @ logEntry first_commit) None],
            mirror := Some ([] @ logEntry first_commit)\<rparr>"
  let ?w' = "\<lparr>processedCommits = {js ''deadbeef''},
          remote = Some \<lparr>text_of = other_log @ logEntry first_commit, tag_of = ''sha2''\<rparr>,
          mirror = Some (other_log @ logEntry first_commit),
          workspaceState = Some {js ''deadbeef''},
          calls = [GetAuthenticated, GetContent,
                   CreateOrUpdate ''Create git.trackr.log'' (logEntry first_commit) None,
                   GetAuthenticated, GetContent,
                   CreateOrUpdate ''Update git.trackr.log''
                     (other_log @ logEntry first_commit) (Some ''sha0'')]\<rparr>"
  have rw: "reaches_write (?env 0) first_commit [] None"
    by (simp add: reaches_write_def observes_def first_then_def conflicting_attempt_def
        fresh_attempt_def fetch_def)
  have h: "hash first_commit \<notin> processedCommits fresh_world" by (simp add: fresh_world_def)
  have f: "createOrUpdateFileContents (?env 0) = Inl ?e"
    by (simp add: first_then_def conflicting_attempt_def fresh_attempt_def)
  have st: "status ?e = Some 409" by simp
  have same: "\<forall>j\<ge>0. latest (?env j) = Inr (Some first_commit)"
    by (simp add: first_then_def conflicting_attempt_def update_attempt_def fresh_attempt_def)
  have ff: "fetched_first (calls fresh_world)" by (simp add: fresh_world_def)
  from retry_runs_whole_function [where env = ?env and i = 0 and c = first_commit
      and old = "[]" and s = None and w = fresh_world and e = ?e] rw h f st
  have "trackGitChange ?env 0 fresh_world = trackGitChange ?env (Suc 0) ?w1" by blast
  moreover have "trackGitChange_body (?env (Suc 0)) ?w1 = Return Tracked ?w'"
    by (simp add: body_defs first_then_def update_attempt_def fresh_attempt_def fetch_def
        commit_message_def fresh_world_def first_commit_def js_def)
  ultimately have run: "trackGitChange ?env 0 fresh_world = Some (Tracked, ?w')"
    by (simp add: run_Return)
  from retry_runs_whole_function [where env = ?env and i = 0 and w = fresh_world
      and r = Tracked and w' = ?w'] run ff
  have last: "fetched_first (calls ?w')" by blast
  from retry_runs_whole_function [where env = ?env and i = 0 and w = fresh_world
      and w' = ?w' and ?c0.0 = first_commit] run same
  have "hash first_commit \<in> processedCommits ?w'" by blast
  with last rw h st ff run show ?thesis by simp
qed

text \<open>
  Claim C2. When the commit delivered by the commit source has its hash in the ledger,
  \<^verbatim>\<open>trackGitChange\<close> returns at once as skipped and the state is the one it started
  from: no call is added to the history of \<^verbatim>\<open>octokit\<close> calls, and the ledger, the
  remote file and its sha are unchanged.
\<close>

theorem skips_processed_commit:
  "observes (env i) c \<Longrightarrow> hash c \<in> processedCommits w \<Longrightarrow>
     trackGitChange env i w = Some (Skipped, w)"
  by (rule run_Return) (rule body_skip)

theorem skips_processed_commit_witness:
  "observes (always (fresh_attempt first_commit) 0) first_commit
   \<and> hash first_commit \<in> processedCommits (fresh_world\<lparr>processedCommits := {js ''deadbeef''}\<rparr>)
   \<and> trackGitChange (always (fresh_attempt first_commit)) 0
        (fresh_world\<lparr>processedCommits := {js ''deadbeef''}\<rparr>)
      = Some (Skipped, fresh_world\<lparr>processedCommits := {js ''deadbeef''}\<rparr>)"
proof -
  have o: "observes (always (fresh_attempt first_commit) 0) first_commit"
    by (simp add: observes_def always_def fresh_attempt_def)
  have h: "hash first_commit \<in> processedCommits (fresh_world\<lparr>processedCommits := {js ''deadbeef''}\<rparr>)"
    by (simp add: first_commit_def js_def)
  from skips_processed_commit [of "always (fresh_attempt first_commit)" 0 first_commit
      "fresh_world\<lparr>processedCommits := {js ''deadbeef''}\<rparr>"] o h
  show ?thesis by simp
qed

text \<open>
  Claim C3. When the remote write fails with an error other than 409, the call returns
  as failed with that error and the ledger is as it was (only the call history and the
  mirror file have changed). A hash is in the ledger after a call and was not before
  only if, in an attempt of that call, the write for the commit with that hash was
  issued and accepted.
\<close>

theorem fatal_write_leaves_ledger:
  "(reaches_write (env i) c old s \<and> hash c \<notin> processedCommits w
      \<and> createOrUpdateFileContents (env i) = Inl e \<and> status e \<noteq> Some 409 \<longrightarrow>
      trackGitChange env i w =
        Some (Failed e,
          w\<lparr>calls := calls w @ [GetAuthenticated, GetContent,
                        CreateOrUpdate (commit_message s) (old @ logEntry c) s],
            mirror := Some (old @ logEntry c)\<rparr>))
   \<and> (trackGitChange env i w = Some (r, w') \<and> h \<in> processedCommits w'
        \<and> h \<notin> processedCommits w \<longrightarrow>
        (\<exists>j c old s. i \<le> j \<and> reaches_write (env j) c old s \<and> hash c = h
           \<and> \<not> isl (createOrUpdateFileContents (env j))
           \<and> CreateOrUpdate (commit_message s) (old @ logEntry c) s \<in> set (calls w')))"
proof (intro conjI impI)
  assume a: "reaches_write (env i) c old s \<and> hash c \<notin> processedCommits w
      \<and> createOrUpdateFileContents (env i) = Inl e \<and> status e \<noteq> Some 409"
  then have "trackGitChange_body (env i) w =
      Return (Failed e)
          (w\<lparr>calls := calls w @ [GetAuthenticated, GetContent,
                        CreateOrUpdate (commit_message s) (old @ logEntry c) s],
            mirror := Some (old @ logEntry c)\<rparr>)"
    using body_write [of "env i" c old s w] by (simp add: Let_def)
  then show "trackGitChange env i w =
        Some (Failed e,
          w\<lparr>calls := calls w @ [GetAuthenticated, GetContent,
                        CreateOrUpdate (commit_message s) (old @ logEntry c) s],
            mirror := Some (old @ logEntry c)\<rparr>)"
    by (rule run_Return)
next
  assume "trackGitChange env i w = Some (r, w') \<and> h \<in> processedCommits w'
        \<and> h \<notin> processedCommits w"
  with run_ledger_confirmed [of env i w r w']
  show "\<exists>j c old s. i \<le> j \<and> reaches_write (env j) c old s \<and> hash c = h
           \<and> \<not> isl (createOrUpdateFileContents (env j))
           \<and> CreateOrUpdate (commit_message s) (old @ logEntry c) s \<in> set (calls w')"
    by blast
qed

theorem fatal_write_leaves_ledger_witness:
  "reaches_write (always (failing_attempt first_commit) 0) first_commit [] None
   \<and> hash first_commit \<notin> processedCommits fresh_world
   \<and> status (Error (Some 503) ''Service Unavailable'') \<noteq> Some 409
   \<and> trackGitChange (always (failing_attempt first_commit)) 0 fresh_world =
       Some (Failed (Error (Some 503) ''Service Unavailable''),
         \<lparr>processedCommits = {}, remote = None,
          mirror = Some (js ''[2024-01-01T00:00:00Z] deadbeef: Initial commit\<newline>''),
          workspaceState = None,
          calls = [GetAuthenticated, GetContent,
                   CreateOrUpdate ''Create git.trackr.log''
                     (js ''[2024-01-01T00:00:00Z] deadbeef: Initial commit\<newline>'') None]\<rparr>)
   \<and> trackGitChange (always (update_attempt first_commit)) 0 fresh_world =
       Some (Tracked,
         \<lparr>processedCommits = {js ''deadbeef''},
          remote = Some \<lparr>text_of = other_log @ logEntry first_commit, tag_of = ''sha2''\<rparr>,
          mirror = Some (other_log @ logEntry first_commit),
          workspaceState = Some {js ''deadbeef''},
          calls = [GetAuthenticated, GetContent,
                   CreateOrUpdate ''Update git.trackr.log''
                     (other_log @ logEntry first_commit) (Some ''sha0'')]\<rparr>)
   \<and> (\<exists>j c old s. 0 \<le> j \<and> reaches_write (always (update_attempt first_commit) j) c old s
         \<and> hash c = js ''deadbeef''
         \<and> \<not> isl (createOrUpdateFileContents (always (update_attempt first_commit) j)))"
proof -
  let ?fail = "always (failing_attempt first_commit)"
  let ?e = "Error (Some 503) ''Service Unavailable''"
  let ?ok = "always (update_attempt first_commit)"
  let ?w' = "\<lparr>processedCommits = {js ''deadbeef''},
          remote = Some \<lparr>text_of = other_log @ logEntry first_commit, tag_of = ''sha2''\<rparr>,
          mirror = Some (other_log @ logEntry first_commit),
          workspaceState = Some {js ''deadbeef''},
          calls = [GetAuthenticated, GetContent,
                   CreateOrUpdate ''Update git.trackr.log''
                     (other_log @ logEntry first_commit) (Some ''sha0'')]\<rparr>"
  have rw: "reaches_write (?fail 0) first_commit [] None"
    by (simp add: reaches_write_def observes_def always_def failing_attempt_def
        fresh_attempt_def fetch_def)
  have h: "hash first_commit \<notin> processedCommits fresh_world" by (simp add: fresh_world_def)
  have f: "createOrUpdateFileContents (?fail 0) = Inl ?e"
    by (simp add: always_def failing_attempt_def fresh_attempt_def)
  have st: "status ?e \<noteq> Some 409" by simp
  from fatal_write_leaves_ledger [of ?fail 0 first_commit "[]" None fresh_world ?e] rw h f st
  have 1: "trackGitChange ?fail 0 fresh_world =
       Some (Failed ?e,
         \<lparr>processedCommits = {}, remote = None,
          mirror = Some (js ''[2024-01-01T00:00:00Z] deadbeef: Initial commit\<newline>''),
          workspaceState = None,
          calls = [GetAuthenticated, GetContent,
                   CreateOrUpdate ''Create git.trackr.log''
                     (js ''[2024-01-01T00:00:00Z] deadbeef: Initial commit\<newline>'') None]\<rparr>)"
    by (simp add: fresh_world_def commit_message_def logEntry_def first_commit_def js_def)
  have "trackGitChange_body (?ok 0) fresh_world = Return Tracked ?w'"
    by (simp add: body_defs always_def update_attempt_def fresh_attempt_def fetch_def
        commit_message_def fresh_world_def first_commit_def js_def)
  then have 2: "trackGitChange ?ok 0 fresh_world = Some (Tracked, ?w')" by (rule run_Return)
  have "js ''deadbeef'' \<in> processedCommits ?w' \<and> js ''deadbeef'' \<notin> processedCommits fresh_world"
    by (simp add: fresh_world_def)
  with 2 fatal_write_leaves_ledger [where env = ?ok and i = 0 and w = fresh_world and r = Tracked
      and w' = ?w' and h = "js ''deadbeef''"]
  have 3: "\<exists>j c old s. 0 \<le> j \<and> reaches_write (?ok j) c old s \<and> hash c = js ''deadbeef''
         \<and> \<not> isl (createOrUpdateFileContents (?ok j))"
    by blast
  from rw h st 1 2 3 show ?thesis by blast
qed

text \<open>
  Claim C4 as stated does not hold: when the conditional write, an update of the file
  another writer has written, is answered with 409 at every attempt, the call never
  returns.
\<close>

theorem sustained_conflict_never_returns:
  "trackGitChange (always (contended_attempt first_commit)) 0 fresh_world = None"
proof (rule conflicts_never, rule allI)
  fix k
  show "conflicts (always (contended_attempt first_commit) (0 + k)) (processedCommits fresh_world)"
    by (simp add: conflicts_def observes_def always_def contended_attempt_def update_attempt_def
        fresh_attempt_def fetch_def fresh_world_def)
qed

text \<open>
  Claim C4, as amended. The retry on 409 has no bound. A run of the body ends in the
  recursive call exactly when an error of status 409 leaves the inner \<^verbatim>\<open>try\<close>; an
  attempt whose conditional write is answered with 409 ends so, with the ledger and the
  remote file as they were and one more write issued. After \<open>n\<close> attempts in a row whose
  write is answered with 409, for every \<open>n\<close>, the call has issued \<open>n\<close> writes and goes on
  as a call from attempt \<open>n + 1\<close>; when the write is answered with 409 at every attempt
  the call never returns. The call returns exactly when, after some number of attempts
  that end in the recursive call, an attempt returns, and then returns what that
  attempt returns.
\<close>

theorem retries_without_bound:
  "(trackGitChange_body a w = Retry w1 \<longleftrightarrow>
      (\<exists>c e. observes a c \<and> hash c \<notin> processedCommits w \<and> \<not> isl (getAuthenticated a)
         \<and> append_try a c (w\<lparr>calls := calls w @ [GetAuthenticated]\<rparr>) = (Inl e, w1)
         \<and> status e = Some 409))
   \<and> (conflicts a (processedCommits w) \<longrightarrow>
        (\<exists>w2. trackGitChange_body a w = Retry w2 \<and> processedCommits w2 = processedCommits w
           \<and> remote w2 = remote w \<and> writes (calls w2) = Suc (writes (calls w))))
   \<and> ((\<forall>k<n. conflicts (env (i + k)) (processedCommits w)) \<longrightarrow>
        (\<exists>wn. retries env i n w = Some wn \<and> processedCommits wn = processedCommits w
           \<and> remote wn = remote w \<and> writes (calls wn) = writes (calls w) + n
           \<and> trackGitChange env i w = trackGitChange env (i + n) wn))
   \<and> ((\<forall>k. conflicts (env (i + k)) (processedCommits w)) \<longrightarrow> trackGitChange env i w = None)
   \<and> (trackGitChange env i w = Some (r, w') \<longleftrightarrow>
        (\<exists>n wn. retries env i n w = Some wn
           \<and> trackGitChange_body (env (i + n)) wn = Return r w'))
   \<and> (retries env i n w = Some wn \<longrightarrow>
        trackGitChange env i w = trackGitChange env (i + n) wn)
   \<and> ((\<forall>n. retries env i n w \<noteq> None) \<longrightarrow> trackGitChange env i w = None)"
proof (intro conjI impI)
  show "trackGitChange_body a w = Retry w1 \<longleftrightarrow>
      (\<exists>c e. observes a c \<and> hash c \<notin> processedCommits w \<and> \<not> isl (getAuthenticated a)
         \<and> append_try a c (w\<lparr>calls := calls w @ [GetAuthenticated]\<rparr>) = (Inl e, w1)
         \<and> status e = Some 409)"
    by (rule body_Retry_iff)
next
  assume "conflicts a (processedCommits w)"
  then show "\<exists>w2. trackGitChange_body a w = Retry w2 \<and> processedCommits w2 = processedCommits w
           \<and> remote w2 = remote w \<and> writes (calls w2) = Suc (writes (calls w))"
    by (rule body_conflict)
next
  assume "\<forall>k<n. conflicts (env (i + k)) (processedCommits w)"
  from retries_conflicts [OF this] obtain wn where
    wn: "retries env i n w = Some wn" "processedCommits wn = processedCommits w"
    "remote wn = remote w" "writes (calls wn) = writes (calls w) + n" by blast
  from run_retries [OF wn(1)] wn
  show "\<exists>wn. retries env i n w = Some wn \<and> processedCommits wn = processedCommits w
           \<and> remote wn = remote w \<and> writes (calls wn) = writes (calls w) + n
           \<and> trackGitChange env i w = trackGitChange env (i + n) wn"
    by blast
next
  assume "\<forall>k. conflicts (env (i + k)) (processedCommits w)"
  then show "trackGitChange env i w = None" by (rule conflicts_never)
next
  show "trackGitChange env i w = Some (r, w') \<longleftrightarrow>
        (\<exists>n wn. retries env i n w = Some wn
           \<and> trackGitChange_body (env (i + n)) wn = Return r w')"
    by (rule run_iff)
next
  assume "retries env i n w = Some wn"
  then show "trackGitChange env i w = trackGitChange env (i + n) wn" by (rule run_retries)
next
  assume "\<forall>n. retries env i n w \<noteq> None"
  then show "trackGitChange env i w = None" by (rule run_never)
qed

theorem retries_without_bound_witness:
  "conflicts (contended_attempt second_commit) (processedCommits fresh_world)
   \<and> (\<exists>wn. retries (always (contended_attempt second_commit)) 0 3 fresh_world = Some wn
         \<and> processedCommits wn = {} \<and> remote wn = None \<and> writes (calls wn) = 3
         \<and> trackGitChange (always (contended_attempt second_commit)) 0 fresh_world
             = trackGitChange (always (contended_attempt second_commit)) 3 wn)
   \<and> trackGitChange (always (contended_attempt second_commit)) 0 fresh_world = None
   \<and> trackGitChange (first_then (contended_attempt first_commit) (update_attempt first_commit)) 0
        fresh_world =
       Some (Tracked,
         \<lparr>processedCommits = {js ''deadbeef''},
          remote = Some \<lparr>text_of = other_log @ logEntry first_commit, tag_of = ''sha2''\<rparr>,
          mirror = Some (other_log @ logEntry first_commit),
          workspaceState = Some {js ''deadbeef''},
          calls = [GetAuthenticated, GetContent,
                   CreateOrUpdate ''Update git.trackr.log''
                     (other_log @ logEntry first_commit) (Some ''sha0''),
                   GetAuthenticated, GetContent,
                   CreateOrUpdate ''Update git.trackr.log''
                     (other_log @ logEntry first_commit) (Some ''sha0'')]\<rparr>)"
proof -
  let ?a = "contended_attempt second_commit"
  let ?env = "first_then (contended_attempt first_commit) (update_attempt first_commit)"
  let ?w1 = "fresh_world\<lparr>calls := [GetAuthenticated, GetContent,
                   CreateOrUpdate ''Update git.trackr.log''
                     (other_log @ logEntry first_commit) (Some ''sha0'')],
               mirror := Some (other_log @ logEntry first_commit)\<rparr>"
  let ?w' = "\<lparr>processedCommits = {js ''deadbeef''},
          remote = Some \<lparr>text_of = other_log @ logEntry first_commit, tag_of = ''sha2''\<rparr>,
          mirror = Some (other_log @ logEntry first_commit),
          workspaceState = Some {js ''deadbeef''},
          calls = [GetAuthenticated, GetContent,
                   CreateOrUpdate ''Update git.trackr.log''
                     (other_log @ logEntry first_commit) (Some ''sha0''),
                   GetAuthenticated, GetContent,
                   CreateOrUpdate ''Update git.trackr.log''
                     (other_log @ logEntry first_commit) (Some ''sha0'')]\<rparr>"
  have c: "conflicts ?a (processedCommits fresh_world)"
    by (simp add: conflicts_def observes_def contended_attempt_def update_attempt_def
        fresh_attempt_def fetch_def fresh_world_def)
  then have all: "\<forall>k. conflicts (always ?a (0 + k)) (processedCommits fresh_world)"
    by (simp add: always_def)
  then have some: "\<forall>k<3. conflicts (always ?a (0 + k)) (processedCommits fresh_world)"
    by blast
  from retries_without_bound [where env = "always ?a" and i = 0 and n = 3 and w = fresh_world]
    some
  have 1: "\<exists>wn. retries (always ?a) 0 3 fresh_world = Some wn
         \<and> processedCommits wn = {} \<and> remote wn = None \<and> writes (calls wn) = 3
         \<and> trackGitChange (always ?a) 0 fresh_world = trackGitChange (always ?a) 3 wn"
    by (simp add: fresh_world_def writes_def)
  from retries_without_bound [where env = "always ?a" and i = 0 and w = fresh_world] all
  have 2: "trackGitChange (always ?a) 0 fresh_world = None" by blast
  have r: "retries ?env 0 1 fresh_world = Some ?w1"
    by (simp add: body_defs first_then_def contended_attempt_def update_attempt_def
        fresh_attempt_def fetch_def commit_message_def fresh_world_def first_commit_def)
  have b: "trackGitChange_body (?env (0 + 1)) ?w1 = Return Tracked ?w'"
    by (simp add: body_defs first_then_def update_attempt_def fresh_attempt_def fetch_def
        commit_message_def fresh_world_def first_commit_def js_def)
  from retries_without_bound [where env = ?env and i = 0 and w = fresh_world and r = Tracked
      and w' = ?w'] r b
  have 3: "trackGitChange ?env 0 fresh_world = Some (Tracked, ?w')" by blast
  from c 1 2 3 show ?thesis by blast
qed

text \<open>
  Claim C5 as stated does not hold: a successful append stores the content of the
  ledger in the workspace state of the editor (line 173), a durable store that is not
  the remote log.
\<close>

theorem ledger_copied_to_workspace_state:
  "workspaceState fresh_world = None
   \<and> map_option (workspaceState \<circ> snd)
        (trackGitChange (always (update_attempt second_commit)) 0 fresh_world)
      = Some (Some {js ''cafe0001''})
   \<and> map_option (processedCommits \<circ> snd)
        (trackGitChange (always (update_attempt second_commit)) 0 fresh_world)
      = Some {js ''cafe0001''}"
proof -
  have "trackGitChange_body (always (update_attempt second_commit) 0) fresh_world =
      Return Tracked
        \<lparr>processedCommits = {js ''cafe0001''},
          remote = Some \<lparr>text_of = other_log @ logEntry second_commit, tag_of = ''sha2''\<rparr>,
          mirror = Some (other_log @ logEntry second_commit),
          workspaceState = Some {js ''cafe0001''},
          calls = [GetAuthenticated, GetContent,
                   CreateOrUpdate ''Update git.trackr.log''
                     (other_log @ logEntry second_commit) (Some ''sha0'')]\<rparr>"
    by (simp add: body_defs always_def update_attempt_def fresh_attempt_def fetch_def
        commit_message_def fresh_world_def second_commit_def js_def)
  then show ?thesis by (simp add: run_Return fresh_world_def)
qed

text \<open>
  Claim C5, as amended. Every successful append stores a copy of the ledger in the
  workspace state, and a call that ends otherwise leaves the workspace state as it was.
  The copy is never read: a load and a run of the sync carry the workspace state along
  and do not depend on it, so the ledger is rebuilt only from the remote content. The
  ledger never shrinks, neither by a sync nor by a load.
\<close>

theorem ledger_copy_never_read:
  "(trackGitChange env i w = Some (r, w') \<longrightarrow>
      processedCommits w \<subseteq> processedCommits w'
      \<and> (r = Tracked \<longrightarrow> workspaceState w' = Some (processedCommits w'))
      \<and> (r \<noteq> Tracked \<longrightarrow> workspaceState w' = workspaceState w))
   \<and> processedCommits w
        \<subseteq> processedCommits (snd (loadProcessedCommits user_response content_response w))
   \<and> loadProcessedCommits user_response content_response (w\<lparr>workspaceState := x\<rparr>) =
        (Inr (), (snd (loadProcessedCommits user_response content_response w))\<lparr>workspaceState := x\<rparr>)
   \<and> trackGitChange_body a (w\<lparr>workspaceState := x\<rparr>) =
        (case trackGitChange_body a w of
           Return r w1 \<Rightarrow> Return r (if r = Tracked then w1 else w1\<lparr>workspaceState := x\<rparr>)
         | Retry w1 \<Rightarrow> Retry (w1\<lparr>workspaceState := x\<rparr>))"
proof (intro conjI impI)
  assume run: "trackGitChange env i w = Some (r, w')"
  then show "processedCommits w \<subseteq> processedCommits w'" by (rule run_ledger_mono)
  show "workspaceState w' = Some (processedCommits w')" if "r = Tracked"
    using run_tracked [of env i w w'] run that by blast
  show "workspaceState w' = workspaceState w" if "r \<noteq> Tracked"
    using run_workspaceState [OF run] that by blast
next
  show "processedCommits w
        \<subseteq> processedCommits (snd (loadProcessedCommits user_response content_response w))"
    by (rule load_ledger_mono)
next
  show "loadProcessedCommits user_response content_response (w\<lparr>workspaceState := x\<rparr>) =
        (Inr (), (snd (loadProcessedCommits user_response content_response w))\<lparr>workspaceState := x\<rparr>)"
    by (rule load_frame_workspaceState)
next
  show "trackGitChange_body a (w\<lparr>workspaceState := x\<rparr>) =
        (case trackGitChange_body a w of
           Return r w1 \<Rightarrow> Return r (if r = Tracked then w1 else w1\<lparr>workspaceState := x\<rparr>)
         | Retry w1 \<Rightarrow> Retry (w1\<lparr>workspaceState := x\<rparr>))"
    by (rule body_frame_workspaceState)
qed

theorem ledger_copy_never_read_witness:
  "trackGitChange (always (fresh_attempt first_commit)) 0
      (fresh_world\<lparr>processedCommits := {js ''0123abcd''}\<rparr>) =
     Some (Tracked,
       \<lparr>processedCommits = {js ''deadbeef'', js ''0123abcd''},
        remote = Some \<lparr>text_of = logEntry first_commit, tag_of = ''sha1''\<rparr>,
        mirror = Some (logEntry first_commit),
        workspaceState = Some {js ''deadbeef'', js ''0123abcd''},
        calls = [GetAuthenticated, GetContent,
                 CreateOrUpdate ''Create git.trackr.log'' (logEntry first_commit) None]\<rparr>)
   \<and> {js ''0123abcd''} \<subseteq> {js ''deadbeef'', js ''0123abcd''}
   \<and> trackGitChange (always (failing_attempt first_commit)) 0 fresh_world =
       Some (Failed (Error (Some 503) ''Service Unavailable''),
         fresh_world\<lparr>calls := [GetAuthenticated, GetContent,
                   CreateOrUpdate ''Create git.trackr.log'' (logEntry first_commit) None],
            mirror := Some (logEntry first_commit)\<rparr>)
   \<and> Failed (Error (Some 503) ''Service Unavailable'') \<noteq> Tracked
   \<and> workspaceState (fresh_world\<lparr>calls := [GetAuthenticated, GetContent,
                   CreateOrUpdate ''Create git.trackr.log'' (logEntry first_commit) None],
            mirror := Some (logEntry first_commit)\<rparr>) = workspaceState fresh_world"
proof -
  let ?w = "fresh_world\<lparr>processedCommits := {js ''0123abcd''}\<rparr>"
  let ?w' = "\<lparr>processedCommits = {js ''deadbeef'', js ''0123abcd''},
        remote = Some \<lparr>text_of = logEntry first_commit, tag_of = ''sha1''\<rparr>,
        mirror = Some (logEntry first_commit),
        workspaceState = Some {js ''deadbeef'', js ''0123abcd''},
        calls = [GetAuthenticated, GetContent,
                 CreateOrUpdate ''Create git.trackr.log'' (logEntry first_commit) None]\<rparr>"
  let ?e = "Error (Some 503) ''Service Unavailable''"
  let ?f = "fresh_world\<lparr>calls := [GetAuthenticated, GetContent,
                   CreateOrUpdate ''Create git.trackr.log'' (logEntry first_commit) None],
            mirror := Some (logEntry first_commit)\<rparr>"
  have "trackGitChange_body (always (fresh_attempt first_commit) 0) ?w = Return Tracked ?w'"
    by (simp add: body_defs always_def fresh_attempt_def fetch_def
        commit_message_def fresh_world_def first_commit_def js_def)
  then have 1: "trackGitChange (always (fresh_attempt first_commit)) 0 ?w = Some (Tracked, ?w')"
    by (rule run_Return)
  have "trackGitChange_body (always (failing_attempt first_commit) 0) fresh_world
      = Return (Failed ?e) ?f"
    by (simp add: body_defs always_def failing_attempt_def fresh_attempt_def fetch_def
        commit_message_def fresh_world_def first_commit_def js_def)
  then have 2: "trackGitChange (always (failing_attempt first_commit)) 0 fresh_world
      = Some (Failed ?e, ?f)"
    by (rule run_Return)
  from ledger_copy_never_read [where env = "always (fresh_attempt first_commit)" and i = 0
      and w = ?w and r = Tracked and w' = ?w'] 1
  have 3: "processedCommits ?w \<subseteq> processedCommits ?w'" by blast
  from ledger_copy_never_read [where env = "always (failing_attempt first_commit)" and i = 0
      and w = fresh_world and r = "Failed ?e" and w' = ?f] 2
  have 4: "workspaceState ?f = workspaceState fresh_world" by blast
  from 3 have "{js ''0123abcd''} \<subseteq> {js ''deadbeef'', js ''0123abcd''}" by simp
  with 1 2 4 show ?thesis by simp
qed




text \<open>
  Claim C7. Loading is total over arbitrary file content and skips the lines that do not
  match. For every string, a successful read adds to the ledger exactly the hashes
  matched on the lines of the string, where the lines are the pieces between its line
  feeds and nothing else. A line matches with the hash \<open>h\<close> exactly when it reads as
  the log format says, with \<open>h\<close> between a \<^verbatim>\<open>"] "\<close> and the next colon, at the leftmost
  opening bracket where it can and with the shortest timestamp there; a line that
  cannot be read so has no match and adds nothing. On the string
  \<^verbatim>\<open>"not a log line\n[2024] abc123: fix bug\n"\<close> the hashes are exactly \<^verbatim>\<open>abc123\<close>.
\<close>

theorem load_skips_malformed_lines:
  "(content existing = Some log \<longrightarrow>
      loadProcessedCommits (Inr user) (Inr existing) w =
        (Inr (), w\<lparr>calls := calls w @ [GetAuthenticated, GetContent],
                   processedCommits := processedCommits w \<union>
                     {h. \<exists>line \<in> set (split 0x0A log). match_line line = Some h}\<rparr>))
   \<and> (split 0x0A log = ls \<longleftrightarrow>
        (\<forall>l \<in> set ls. 0x0A \<notin> set l) \<and> concat (map (\<lambda>l. l @ [0x0A]) ls) = log @ [0x0A])
   \<and> (match_line line = Some h \<longleftrightarrow>
        (\<exists>pre stamp rest. log_line line pre stamp h rest \<and> of_char CHR '':'' \<notin> set h
           \<and> (\<forall>pre' stamp' h' rest'. log_line line pre' stamp' h' rest' \<longrightarrow>
                 length pre < length pre' \<or> (pre' = pre \<and> length stamp \<le> length stamp'))))
   \<and> (match_line line = None \<longleftrightarrow> \<not> (\<exists>pre stamp h rest. log_line line pre stamp h rest))
   \<and> parse_commits (js ''not a log line\<newline>[2024] abc123: fix bug\<newline>'') = [js ''abc123'']"
proof (intro conjI impI)
  assume "content existing = Some log"
  then show "loadProcessedCommits (Inr user) (Inr existing) w =
        (Inr (), w\<lparr>calls := calls w @ [GetAuthenticated, GetContent],
                   processedCommits := processedCommits w \<union>
                     {h. \<exists>line \<in> set (split 0x0A log). match_line line = Some h}\<rparr>)"
    by (simp add: loadProcessedCommits_def loadProcessedCommits_try_def add_all_eq
        set_parse_commits)
next
  show "split 0x0A log = ls \<longleftrightarrow>
        (\<forall>l \<in> set ls. 0x0A \<notin> set l) \<and> concat (map (\<lambda>l. l @ [0x0A]) ls) = log @ [0x0A]"
    by (rule split_iff)
next
  show "match_line line = Some h \<longleftrightarrow>
        (\<exists>pre stamp rest. log_line line pre stamp h rest \<and> of_char CHR '':'' \<notin> set h
           \<and> (\<forall>pre' stamp' h' rest'. log_line line pre' stamp' h' rest' \<longrightarrow>
                 length pre < length pre' \<or> (pre' = pre \<and> length stamp \<le> length stamp')))"
    by (rule match_line_spec)
next
  show "match_line line = None \<longleftrightarrow> \<not> (\<exists>pre stamp h rest. log_line line pre stamp h rest)"
    by (rule match_line_None_iff)
next
  show "parse_commits (js ''not a log line\<newline>[2024] abc123: fix bug\<newline>'') = [js ''abc123'']"
    by (simp add: parse_commits_def List.map_filter_def trim_def white_space_def
        match_close_def dot_def js_def)
qed

theorem load_skips_malformed_lines_witness:
  "content \<lparr>content = Some (js ''not a log line\<newline>[2024] abc123: fix bug\<newline>''),
            sha = Some ''sha0''\<rparr>
     = Some (js ''not a log line\<newline>[2024] abc123: fix bug\<newline>'')
   \<and> split 0x0A (js ''not a log line\<newline>[2024] abc123: fix bug\<newline>'')
       = [js ''not a log line'', js ''[2024] abc123: fix bug'', []]
   \<and> match_line (js ''[2024] abc123: fix bug'') = Some (js ''abc123'')
   \<and> match_line (js ''not a log line'') = None
   \<and> match_line [] = None
   \<and> processedCommits (snd (loadProcessedCommits (Inr ''octocat'')
        (Inr \<lparr>content = Some (js ''not a log line\<newline>[2024] abc123: fix bug\<newline>''),
              sha = Some ''sha0''\<rparr>)
        fresh_world)) = {js ''abc123''}"
proof -
  let ?log = "js ''not a log line\<newline>[2024] abc123: fix bug\<newline>''"
  let ?existing = "\<lparr>content = Some ?log, sha = Some ''sha0''\<rparr>"
  let ?ls = "[js ''not a log line'', js ''[2024] abc123: fix bug'', []]"
  have c: "content ?existing = Some ?log" by simp
  have m: "match_line (js ''[2024] abc123: fix bug'') = Some (js ''abc123'')"
    by (simp add: match_close_def dot_def js_def)
  have n: "match_line (js ''not a log line'') = None" "match_line [] = None"
    by (simp_all add: match_close_def dot_def js_def)
  have "(\<forall>l \<in> set ?ls. 0x0A \<notin> set l) \<and> concat (map (\<lambda>l. l @ [0x0A]) ?ls) = ?log @ [0x0A]"
    by (simp add: js_def)
  with load_skips_malformed_lines [where log = ?log and ls = ?ls]
  have lines: "split 0x0A ?log = ?ls" by blast
  from load_skips_malformed_lines [where existing = ?existing and log = ?log
      and user = "''octocat''" and w = fresh_world] c
  have "loadProcessedCommits (Inr ''octocat'') (Inr ?existing) fresh_world =
        (Inr (), fresh_world\<lparr>calls := calls fresh_world @ [GetAuthenticated, GetContent],
                   processedCommits := processedCommits fresh_world \<union>
                     {h. \<exists>line \<in> set (split 0x0A ?log). match_line line = Some h}\<rparr>)"
    by blast
  then have "processedCommits (snd (loadProcessedCommits (Inr ''octocat'') (Inr ?existing) fresh_world))
      = {h. \<exists>line \<in> set ?ls. match_line line = Some h}"
    by (simp add: fresh_world_def lines)
  also have "\<dots> = {js ''abc123''}"
    using m n by auto
  finally show ?thesis using c m n lines by simp
qed

text \<open>
  Claim C8. When the fetch is answered with 404, the content is taken to be empty and no
  sha is kept: the write that the attempt issues is a create whose content is the one
  entry of the commit and whose sha is absent. When that write is accepted (and the
  workspace state is stored), the remote file holds exactly that entry.
\<close>

theorem creates_missing_file:
  "observes (env i) c \<and> hash c \<notin> processedCommits w \<and> \<not> isl (getAuthenticated (env i))
     \<and> getContent (env i) = Inl e \<and> status e = Some 404 \<and> \<not> isl (writeFileSync (env i)) \<longrightarrow>
     fetch (env i) = Inr ([], None)
     \<and> calls (world_of (trackGitChange_body (env i) w)) =
         calls w @ [GetAuthenticated, GetContent,
                    CreateOrUpdate ''Create git.trackr.log'' (logEntry c) None]
     \<and> (createOrUpdateFileContents (env i) = Inr new_sha
          \<and> \<not> isl (workspaceStateUpdate (env i)) \<longrightarrow>
          trackGitChange env i w =
            Some (Tracked,
              w\<lparr>calls := calls w @ [GetAuthenticated, GetContent,
                            CreateOrUpdate ''Create git.trackr.log'' (logEntry c) None],
                mirror := Some (logEntry c),
                remote := Some \<lparr>text_of = logEntry c, tag_of = new_sha\<rparr>,
                processedCommits := insert (hash c) (processedCommits w),
                workspaceState := Some (insert (hash c) (processedCommits w))\<rparr>))"
proof (intro impI)
  assume a: "observes (env i) c \<and> hash c \<notin> processedCommits w
     \<and> \<not> isl (getAuthenticated (env i))
     \<and> getContent (env i) = Inl e \<and> status e = Some 404 \<and> \<not> isl (writeFileSync (env i))"
  then have f: "fetch (env i) = Inr ([], None)" by (simp add: fetch_def)
  with a have rw: "reaches_write (env i) c [] None" by (simp add: reaches_write_def)
  from a have h: "hash c \<notin> processedCommits w" by simp
  note body = body_write [OF rw h]
  have calls: "calls (world_of (trackGitChange_body (env i) w)) =
         calls w @ [GetAuthenticated, GetContent,
                    CreateOrUpdate ''Create git.trackr.log'' (logEntry c) None]"
    unfolding body
    by (simp add: Let_def world_of_def commit_message_def split: sum.splits)
  have "trackGitChange env i w =
            Some (Tracked,
              w\<lparr>calls := calls w @ [GetAuthenticated, GetContent,
                            CreateOrUpdate ''Create git.trackr.log'' (logEntry c) None],
                mirror := Some (logEntry c),
                remote := Some \<lparr>text_of = logEntry c, tag_of = new_sha\<rparr>,
                processedCommits := insert (hash c) (processedCommits w),
                workspaceState := Some (insert (hash c) (processedCommits w))\<rparr>)"
    if ok: "createOrUpdateFileContents (env i) = Inr new_sha
          \<and> \<not> isl (workspaceStateUpdate (env i))"
  proof (rule run_Return)
    from ok show "trackGitChange_body (env i) w = Return Tracked
              (w\<lparr>calls := calls w @ [GetAuthenticated, GetContent,
                            CreateOrUpdate ''Create git.trackr.log'' (logEntry c) None],
                mirror := Some (logEntry c),
                remote := Some \<lparr>text_of = logEntry c, tag_of = new_sha\<rparr>,
                processedCommits := insert (hash c) (processedCommits w),
                workspaceState := Some (insert (hash c) (processedCommits w))\<rparr>)"
      unfolding body
      by (simp add: Let_def commit_message_def isl_def split: sum.splits)
  qed
  with f calls show "fetch (env i) = Inr ([], None)
     \<and> calls (world_of (trackGitChange_body (env i) w)) =
         calls w @ [GetAuthenticated, GetContent,
                    CreateOrUpdate ''Create git.trackr.log'' (logEntry c) None]
     \<and> (createOrUpdateFileContents (env i) = Inr new_sha
          \<and> \<not> isl (workspaceStateUpdate (env i)) \<longrightarrow>
          trackGitChange env i w =
            Some (Tracked,
              w\<lparr>calls := calls w @ [GetAuthenticated, GetContent,
                            CreateOrUpdate ''Create git.trackr.log'' (logEntry c) None],
                mirror := Some (logEntry c),
                remote := Some \<lparr>text_of = logEntry c, tag_of = new_sha\<rparr>,
                processedCommits := insert (hash c) (processedCommits w),
                workspaceState := Some (insert (hash c) (processedCommits w))\<rparr>))"
    by blast
qed

theorem creates_missing_file_witness:
  "observes (always (fresh_attempt second_commit) 0) second_commit
   \<and> hash second_commit \<notin> processedCommits fresh_world
   \<and> getContent (always (fresh_attempt second_commit) 0) = Inl (Error (Some 404) ''Not Found'')
   \<and> status (Error (Some 404) ''Not Found'') = Some 404
   \<and> createOrUpdateFileContents (always (fresh_attempt second_commit) 0) = Inr ''sha1''
   \<and> trackGitChange (always (fresh_attempt second_commit)) 0 fresh_world =
       Some (Tracked,
         \<lparr>processedCommits = {js ''cafe0001''},
          remote = Some \<lparr>text_of = js ''[2024-01-02T00:00:00Z] cafe0001: Second commit\<newline>'',
                         tag_of = ''sha1''\<rparr>,
          mirror = Some (js ''[2024-01-02T00:00:00Z] cafe0001: Second commit\<newline>''),
          workspaceState = Some {js ''cafe0001''},
          calls = [GetAuthenticated, GetContent,
                   CreateOrUpdate ''Create git.trackr.log''
                     (js ''[2024-01-02T00:00:00Z] cafe0001: Second commit\<newline>'') None]\<rparr>)"
proof -
  let ?env = "always (fresh_attempt second_commit)"
  have o: "observes (?env 0) second_commit"
    by (simp add: observes_def always_def fresh_attempt_def)
  have h: "hash second_commit \<notin> processedCommits fresh_world"
    by (simp add: fresh_world_def)
  have rest: "\<not> isl (getAuthenticated (?env 0))"
    "getContent (?env 0) = Inl (Error (Some 404) ''Not Found'')"
    "status (Error (Some 404) ''Not Found'') = Some 404"
    "\<not> isl (writeFileSync (?env 0))"
    "createOrUpdateFileContents (?env 0) = Inr ''sha1''"
    "\<not> isl (workspaceStateUpdate (?env 0))"
    by (simp_all add: always_def fresh_attempt_def)
  from creates_missing_file [of ?env 0 second_commit fresh_world
      "Error (Some 404) ''Not Found''" "''sha1''"] o h rest
  have "trackGitChange ?env 0 fresh_world =
            Some (Tracked,
              fresh_world\<lparr>calls := calls fresh_world @ [GetAuthenticated, GetContent,
                            CreateOrUpdate ''Create git.trackr.log'' (logEntry second_commit) None],
                mirror := Some (logEntry second_commit),
                remote := Some \<lparr>text_of = logEntry second_commit, tag_of = ''sha1''\<rparr>,
                processedCommits := insert (hash second_commit) (processedCommits fresh_world),
                workspaceState := Some (insert (hash second_commit) (processedCommits fresh_world))\<rparr>)"
    by blast
  with o h rest show ?thesis
    by (simp add: fresh_world_def logEntry_def second_commit_def js_def)
qed

text \<open>
  Claim C9. Syncing the commit with hash \<^verbatim>\<open>deadbeef\<close>, message \<^verbatim>\<open>Initial commit\<close> and
  timestamp \<^verbatim>\<open>2024-01-01T00:00:00Z\<close> against an empty remote store, from an empty ledger,
  leaves the remote content \<^verbatim>\<open>"[2024-01-01T00:00:00Z] deadbeef: Initial commit\n"\<close> and the
  ledger \<^verbatim>\<open>{deadbeef}\<close>; the entry of a commit is \<^verbatim>\<open>[<timestamp>] <hash>: <message>\n\<close>.
\<close>

theorem end_to_end_scenario:
  "trackGitChange (always (fresh_attempt first_commit)) 0 fresh_world =
     Some (Tracked,
       \<lparr>processedCommits = {js ''deadbeef''},
        remote = Some \<lparr>text_of = js ''[2024-01-01T00:00:00Z] deadbeef: Initial commit\<newline>'',
                       tag_of = ''sha1''\<rparr>,
        mirror = Some (js ''[2024-01-01T00:00:00Z] deadbeef: Initial commit\<newline>''),
        workspaceState = Some {js ''deadbeef''},
        calls = [GetAuthenticated, GetContent,
                 CreateOrUpdate ''Create git.trackr.log''
                   (js ''[2024-01-01T00:00:00Z] deadbeef: Initial commit\<newline>'') None]\<rparr>)
   \<and> logEntry first_commit = js ''[2024-01-01T00:00:00Z] deadbeef: Initial commit\<newline>''
   \<and> logEntry c = js ''['' @ date c @ js ''] '' @ hash c @ js '': '' @ message c @ js ''\<newline>''"
proof -
  have "trackGitChange_body (always (fresh_attempt first_commit) 0) fresh_world =
     Return Tracked
       \<lparr>processedCommits = {js ''deadbeef''},
        remote = Some \<lparr>text_of = js ''[2024-01-01T00:00:00Z] deadbeef: Initial commit\<newline>'',
                       tag_of = ''sha1''\<rparr>,
        mirror = Some (js ''[2024-01-01T00:00:00Z] deadbeef: Initial commit\<newline>''),
        workspaceState = Some {js ''deadbeef''},
        calls = [GetAuthenticated, GetContent,
                 CreateOrUpdate ''Create git.trackr.log''
                   (js ''[2024-01-01T00:00:00Z] deadbeef: Initial commit\<newline>'') None]\<rparr>"
    by (simp add: body_defs always_def fresh_attempt_def first_commit_def js_def fresh_world_def
        fetch_def logEntry_def commit_message_def)
  then show ?thesis
    by (simp add: run_Return logEntry_def first_commit_def js_def)
qed

text \<open>
  Claim C10. \<^verbatim>\<open>loadProcessedCommits\<close> never raises: whatever the two reads answer, it
  returns normally. When a read fails (with 404 or any other error) the ledger is as it
  was. A load only adds to the ledger, so the ledger before a load is contained in the
  ledger after it, and after any further load.
\<close>

theorem load_never_raises:
  "fst (loadProcessedCommits user_response content_response w) = Inr ()
   \<and> processedCommits w \<subseteq> processedCommits (snd (loadProcessedCommits user_response content_response w))
   \<and> (isl user_response \<or> isl content_response \<longrightarrow>
        processedCommits (snd (loadProcessedCommits user_response content_response w))
          = processedCommits w)
   \<and> processedCommits w
        \<subseteq> processedCommits (snd (loadProcessedCommits user_response' content_response'
            (snd (loadProcessedCommits user_response content_response w))))"
proof -
  have mono: "processedCommits v \<subseteq> processedCommits (snd (loadProcessedCommits u c v))" for u c v
    by (auto simp: loadProcessedCommits_def loadProcessedCommits_try_def add_all_eq Let_def
        split: sum.splits option.splits prod.splits)
  have "fst (loadProcessedCommits user_response content_response w) = Inr ()"
    by (simp add: loadProcessedCommits_def split: prod.splits sum.splits)
  moreover have "isl user_response \<or> isl content_response \<longrightarrow>
        processedCommits (snd (loadProcessedCommits user_response content_response w))
          = processedCommits w"
    by (auto simp: loadProcessedCommits_def loadProcessedCommits_try_def isl_def Let_def
        split: sum.splits option.splits prod.splits)
  moreover from mono [of w user_response content_response]
    mono [of "snd (loadProcessedCommits user_response content_response w)"
      user_response' content_response']
  have "processedCommits w
        \<subseteq> processedCommits (snd (loadProcessedCommits user_response' content_response'
            (snd (loadProcessedCommits user_response content_response w))))"
    by (rule subset_trans)
  ultimately show ?thesis using mono [of w user_response content_response] by blast
qed

theorem load_never_raises_witness:
  "isl (Inl (Error (Some 503) ''Service Unavailable'') :: error + data)
   \<and> loadProcessedCommits (Inr ''octocat'') (Inl (Error (Some 503) ''Service Unavailable''))
        (fresh_world\<lparr>processedCommits := {js ''deadbeef''}\<rparr>)
      = (Inr (), fresh_world\<lparr>processedCommits := {js ''deadbeef''},
                               calls := [GetAuthenticated, GetContent]\<rparr>)
   \<and> processedCommits (snd (loadProcessedCommits (Inr ''octocat'')
        (Inl (Error (Some 503) ''Service Unavailable''))
        (fresh_world\<lparr>processedCommits := {js ''deadbeef''}\<rparr>))) = {js ''deadbeef''}"
  using load_never_raises [of "Inr ''octocat''" "Inl (Error (Some 503) ''Service Unavailable'')"
      "fresh_world\<lparr>processedCommits := {js ''deadbeef''}\<rparr>"]
  by (simp add: loadProcessedCommits_def loadProcessedCommits_try_def fresh_world_def Let_def)

end
